theory Spec2Isabelle
  imports Complex_Main "HOL-Library.FSet" "HOL-Library.AList" "HOL-Library.Sublist"
begin

section \<open>Exceptions\<close>

text \<open>
  Every exception the modelled code can raise is a value. \<open>ApiError\<close> stands for
  whatever a registry call raises (its message is what \<^verbatim>\<open>str(e)\<close> would give),
  \<open>IndexError\<close> for an index out of range on a list or deque, \<open>RecursionError\<close>
  for a recursion deeper than the interpreter allows.
\<close>

datatype error = ApiError string | IndexError | RecursionError

section \<open>The rate limiter (core/rate\_limiter.py)\<close>

text \<open>
  \<^verbatim>\<open>RateLimiter\<close> holds \<^verbatim>\<open>max_requests\<close>, \<^verbatim>\<open>period\<close> and the deque
  \<^verbatim>\<open>requests\<close> of the timestamps of the granted requests, oldest first. The lock
  makes each call of \<^verbatim>\<open>acquire\<close> one atomic step, so a run is a sequence of calls.
  The clock is an input of the model: \<open>now\<close> is what the first \<^verbatim>\<open>time.time()\<close>
  returns and \<open>wake\<close> what the second one returns, after \<^verbatim>\<open>time.sleep\<close>. Times
  are real numbers (the floats of the source, without rounding).
\<close>

record rate_limiter =
  max_requests :: int
  period :: real
  requests :: "real list"

text \<open>
  \<^verbatim>\<open>while self.requests and self.requests[0] < now - self.period: self.requests.popleft()\<close>
\<close>

fun prune :: "real \<Rightarrow> real \<Rightarrow> real list \<Rightarrow> real list" where
  "prune now p [] = []"
| "prune now p (t # ts) = (if t < now - p then prune now p ts else t # ts)"

text \<open>
  One call of \<^verbatim>\<open>acquire\<close>. The result is the limiter after the call, the time it
  slept (\<open>None\<close> when it did not sleep) and the timestamp it recorded for the granted
  request. \<^verbatim>\<open>self.requests[0]\<close> on an empty deque raises.
\<close>

definition acquire ::
  "rate_limiter \<Rightarrow> real \<Rightarrow> real \<Rightarrow> error + (rate_limiter \<times> real option \<times> real)" where
  "acquire rl now wake =
    (let reqs = prune now (period rl) (requests rl) in
     if int (length reqs) \<ge> max_requests rl then
       (case reqs of
          [] \<Rightarrow> Inl IndexError
        | oldest # _ \<Rightarrow>
            (let sleep_time = oldest + period rl - now in
             if sleep_time > 0 then
               (let reqs' = prune wake (period rl) reqs in
                Inr (rl\<lparr>requests := reqs' @ [wake]\<rparr>, Some sleep_time, wake))
             else Inr (rl\<lparr>requests := reqs @ [now]\<rparr>, None, now)))
     else Inr (rl\<lparr>requests := reqs @ [now]\<rparr>, None, now))"

text \<open>
  A sequence of calls, each with its two clock readings. The result lists, for every
  call, the time slept and the timestamp granted.
\<close>

fun acquire_all ::
  "rate_limiter \<Rightarrow> (real \<times> real) list \<Rightarrow> error + (rate_limiter \<times> (real option \<times> real) list)" where
  "acquire_all rl [] = Inr (rl, [])"
| "acquire_all rl ((now, wake) # cs) =
     (case acquire rl now wake of
        Inl e \<Rightarrow> Inl e
      | Inr (rl', slept, granted) \<Rightarrow>
          (case acquire_all rl' cs of
             Inl e \<Rightarrow> Inl e
           | Inr (rl'', gs) \<Rightarrow> Inr (rl'', (slept, granted) # gs)))"

text \<open>
  The grants whose timestamps lie in the window of length \<open>p\<close> that starts at \<open>t\<close>
  (the start included, the end excluded).
\<close>

definition grants_in_window :: "real \<Rightarrow> real \<Rightarrow> real list \<Rightarrow> nat" where
  "grants_in_window t p gs = length (filter (\<lambda>g. t \<le> g \<and> g < t + p) gs)"

section \<open>Strings\<close>

text \<open>
  Strings are byte strings. \<^verbatim>\<open>str.upper()\<close> is modelled on the ASCII letters;
  every other character is left as it is.
\<close>

definition upper_char :: "char \<Rightarrow> char" where
  "upper_char c =
     (case map_of (zip ''abcdefghijklmnopqrstuvwxyz'' ''ABCDEFGHIJKLMNOPQRSTUVWXYZ'') c of
        None \<Rightarrow> c
      | Some u \<Rightarrow> u)"

definition upper :: "string \<Rightarrow> string" where
  "upper s = map upper_char s"

text \<open>\<^verbatim>\<open>k in s\<close> on strings: \<open>k\<close> occurs in \<open>s\<close> as a contiguous piece.\<close>

fun contains :: "string \<Rightarrow> string \<Rightarrow> bool" where
  "contains k [] = (k = [])"
| "contains k (x # xs) = (take (length k) (x # xs) = k \<or> contains k xs)"

text \<open>\<^verbatim>\<open>s.split(c)\<close>: the pieces between the occurrences of \<open>c\<close>, empty ones included.\<close>

fun split_on :: "char \<Rightarrow> string \<Rightarrow> string list" where
  "split_on c [] = [[]]"
| "split_on c (x # xs) =
     (if x = c then [] # split_on c xs
      else (case split_on c xs of [] \<Rightarrow> [[x]] | w # ws \<Rightarrow> (x # w) # ws))"

text \<open>\<^verbatim>\<open>xs[-2]\<close>, which raises on a list of fewer than two elements.\<close>

definition second_last :: "'a list \<Rightarrow> error + 'a" where
  "second_last xs = (if length xs \<ge> 2 then Inr (xs ! (length xs - 2)) else Inl IndexError)"

text \<open>
  A value read with \<^verbatim>\<open>d.get(key)\<close> is \<open>None\<close> when the key is absent and a
  string otherwise. \<^verbatim>\<open>d.get(key, '')\<close> is \<open>get_default\<close>; the truth value Python
  gives such a value is \<open>truthy\<close>.
\<close>

definition get_default :: "string option \<Rightarrow> string" where
  "get_default v = (case v of None \<Rightarrow> [] | Some s \<Rightarrow> s)"

definition truthy :: "string option \<Rightarrow> bool" where
  "truthy v = (case v of None \<Rightarrow> False | Some s \<Rightarrow> s \<noteq> [])"

section \<open>The registry client, as the scanner sees it\<close>

text \<open>
  The dictionaries the registry returns are records of the keys the scanner reads. A
  key that may be absent is an option. Every response object is a non-empty
  dictionary, so that it counts as true where the scanner tests it.
\<close>

record profile =
  p_company_name :: "string option"
  p_company_status :: "string option"
  p_type :: "string option"
  p_date_of_creation :: "string option"

record officer =
  o_name :: "string option"
  o_officer_role :: "string option"
  o_appointed_on :: "string option"
  o_resigned_on :: "string option"
  o_date_of_birth :: "(int \<times> int) option"

text \<open>A search hit: its \<^verbatim>\<open>title\<close> and \<^verbatim>\<open>links.self\<close>.\<close>

record officer_match =
  r_title :: "string option"
  r_links_self :: "string option"

text \<open>
  An item of an officer's appointment list: \<^verbatim>\<open>appointed_to.company_number\<close>,
  \<^verbatim>\<open>appointed_to.company_status\<close> and \<^verbatim>\<open>resigned_on\<close>.
\<close>

record officer_appointment =
  t_company_number :: "string option"
  t_company_status :: "string option"
  t_resigned_on :: "string option"

text \<open>
  What one run does, in order: the registry calls it makes and the company nodes it
  stores. The log is not a variable of the source; it records the effects of the run
  the snapshot does not show.
\<close>

datatype event =
    Call_get_company_profile string
  | Call_get_officers string
  | Call_search_officers string
  | Call_get_officer_appointments string
  | Store_company string

text \<open>
  The four calls of \<^verbatim>\<open>CompaniesHouseClient\<close> the scanner makes. Each returns its
  result or raises. The registry is outside the program and a request can fail at one
  time and succeed at another, so the answer depends on the request and on what the
  run has done before it, which is the first argument.
\<close>

record api_client =
  get_company_profile :: "event list \<Rightarrow> string \<Rightarrow> error + profile"
  get_officers :: "event list \<Rightarrow> string \<Rightarrow> error + officer list"
  search_officers :: "event list \<Rightarrow> string \<Rightarrow> error + officer_match list"
  get_officer_appointments :: "event list \<Rightarrow> string \<Rightarrow> error + officer_appointment list"

section \<open>The network snapshot (network\_scanner.py)\<close>

record company_node =
  c_company_number :: string
  c_company_name :: "string option"
  c_company_status :: "string option"
  c_company_type :: "string option"
  c_incorporation_date :: "string option"
  c_depth :: int
  c_officer_count :: int

record appointment =
  a_company_number :: string
  a_company_name :: "string option"
  a_role :: string
  a_appointed_on :: "string option"
  a_resigned_on :: "string option"
  a_date_of_birth :: "(int \<times> int) option"

record director =
  d_name :: string
  d_appointments :: "appointment list"
  d_company_count :: int

record connection =
  n_company_number :: string
  n_company_name :: "string option"
  n_director_id :: string
  n_director_name :: string
  n_role :: string
  n_depth :: int

record statistics =
  total_companies :: int
  total_directors :: int
  total_connections :: int
  depth_reached :: int

text \<open>
  A Python dictionary keeps its keys in the order of their first insertion, and
  \<^verbatim>\<open>find_company_clusters\<close> iterates over \<^verbatim>\<open>network['companies']\<close>. The two
  dictionaries of the snapshot are therefore association lists: \<open>AList.update\<close>
  replaces the value of a key that is present, in place, and appends a new key.
\<close>

record network =
  net_seed_companies :: "string list"
  net_max_depth :: int
  companies :: "(string \<times> company_node) list"
  directors :: "(string \<times> director) list"
  connections :: "connection list"
  statistics :: statistics

text \<open>The two sets a \<^verbatim>\<open>NetworkScanner\<close> object carries from call to call.\<close>

record scanner =
  scanned_companies :: "string fset"
  scanned_officers :: "string fset"

text \<open>The variables of \<^verbatim>\<open>scan_network\<close>, and the log.\<close>

record scan_state =
  self :: scanner
  network :: network
  companies_to_scan :: "(string \<times> int) list"
  events :: "event list"

definition log_event :: "event \<Rightarrow> scan_state \<Rightarrow> scan_state" where
  "log_event e st = st\<lparr>events := events st @ [e]\<rparr>"

section \<open>scan\_network\<close>

text \<open>
  Lines 185 to 202, the loop over the appointments of the matched officer. A target
  company is put at the end of the frontier, one level below the company being
  expanded, unless its number is missing or empty, it is already scanned, or
  \<^verbatim>\<open>active_only\<close> rules it out.
\<close>

fun enqueue_appointments ::
  "bool \<Rightarrow> int \<Rightarrow> string fset \<Rightarrow> officer_appointment list \<Rightarrow> (string \<times> int) list
     \<Rightarrow> (string \<times> int) list" where
  "enqueue_appointments active_only depth scanned [] q = q"
| "enqueue_appointments active_only depth scanned (appt # appts) q =
     (if \<not> truthy (t_company_number appt) \<or> get_default (t_company_number appt) |\<in>| scanned
      then enqueue_appointments active_only depth scanned appts q
      else if active_only \<and> truthy (t_resigned_on appt)
      then enqueue_appointments active_only depth scanned appts q
      else if active_only \<and> t_company_status appt \<noteq> Some ''active''
      then enqueue_appointments active_only depth scanned appts q
      else enqueue_appointments active_only depth scanned appts
             (q @ [(get_default (t_company_number appt), depth + 1)]))"

text \<open>
  Lines 178 to 206: the appointments of the matched officer are fetched and walked
  through; whatever the call raises is caught here and changes nothing.
\<close>

definition fetch_appointments :: "api_client \<Rightarrow> bool \<Rightarrow> int \<Rightarrow> string \<Rightarrow> scan_state \<Rightarrow> scan_state" where
  "fetch_appointments client active_only depth officer_api_id st =
     (let st1 = log_event (Call_get_officer_appointments officer_api_id) st in
      case get_officer_appointments client (events st) officer_api_id of
        Inl appt_error \<Rightarrow> st1
      | Inr appointments \<Rightarrow>
          st1\<lparr>companies_to_scan :=
                 enqueue_appointments active_only depth (scanned_companies (self st1))
                   appointments (companies_to_scan st1)\<rparr>)"

text \<open>
  Lines 160 to 170. \<open>exact_match\<close> is the test of line 164: the hit's title is the
  officer's name, letter case apart. The loop looks at the first five hits and stops
  at the first exact match; without one the first hit is taken. The result is
  \<open>None\<close> only for an empty list of hits.
\<close>

definition exact_match :: "string \<Rightarrow> officer_match \<Rightarrow> bool" where
  "exact_match officer_name officer_match \<longleftrightarrow>
     upper (get_default (r_title officer_match)) = upper officer_name"

fun first_exact_match :: "string \<Rightarrow> officer_match list \<Rightarrow> officer_match option" where
  "first_exact_match officer_name [] = None"
| "first_exact_match officer_name (officer_match # rest) =
     (if exact_match officer_name officer_match then Some officer_match
      else first_exact_match officer_name rest)"

definition select_best_match :: "string \<Rightarrow> officer_match list \<Rightarrow> officer_match option" where
  "select_best_match officer_name officer_results =
     (case first_exact_match officer_name (take 5 officer_results) of
        Some best_match \<Rightarrow> Some best_match
      | None \<Rightarrow> (case officer_results of [] \<Rightarrow> None | first # _ \<Rightarrow> Some first))"

text \<open>Line 151: the name, in upper case, contains one of the corporate keywords.\<close>

definition is_corporate :: "string \<Rightarrow> bool" where
  "is_corporate officer_name =
     list_ex (\<lambda>keyword. contains keyword (upper officer_name))
       [''LIMITED'', ''LTD'', ''PLC'', ''LLP'', ''COMPANY'', ''CORPORATE'']"

definition mark_officer :: "string \<Rightarrow> scan_state \<Rightarrow> scan_state" where
  "mark_officer officer_id st =
     st\<lparr>self := (self st)\<lparr>scanned_officers := finsert officer_id (scanned_officers (self st))\<rparr>\<rparr>"

text \<open>
  Lines 150 to 208, the body of the inner \<^verbatim>\<open>try\<close>. An exception that leaves it
  (from \<^verbatim>\<open>search_officers\<close>, or from \<^verbatim>\<open>match_id.split('/')[-2]\<close>) comes with the
  state at that point.
\<close>

definition search_officer ::
  "api_client \<Rightarrow> bool \<Rightarrow> int \<Rightarrow> string \<Rightarrow> string \<Rightarrow> scan_state \<Rightarrow> error \<times> scan_state + scan_state" where
  "search_officer client active_only depth officer_name officer_id st =
     (if is_corporate officer_name then Inr (mark_officer officer_id st)
      else
        (let st1 = log_event (Call_search_officers officer_name) st in
         case search_officers client (events st) officer_name of
           Inl e \<Rightarrow> Inl (e, st1)
         | Inr officer_results \<Rightarrow>
             (if officer_results \<noteq> [] then
                (case select_best_match officer_name officer_results of
                   None \<Rightarrow> Inr (mark_officer officer_id st1)
                 | Some best_match \<Rightarrow>
                     (let match_id = get_default (r_links_self best_match) in
                      if match_id \<noteq> [] then
                        (case second_last (split_on CHR ''/'' match_id) of
                           Inl e \<Rightarrow> Inl (e, st1)
                         | Inr officer_api_id \<Rightarrow>
                             Inr (mark_officer officer_id
                                    (fetch_appointments client active_only depth officer_api_id st1)))
                      else Inr (mark_officer officer_id st1)))
              else Inr (mark_officer officer_id st1))))"

text \<open>\<^verbatim>\<open>f"{officer_name}_{officer.get('appointed_on', '')}"\<close>\<close>

definition officer_id_of :: "officer \<Rightarrow> string" where
  "officer_id_of officer = get_default (o_name officer) @ ''_'' @ get_default (o_appointed_on officer)"

text \<open>
  Lines 111 to 135: the director's entry is created when its key is new, the
  appointment is appended and the count is set to the length of the list.
\<close>

definition record_appointment ::
  "string \<Rightarrow> string \<Rightarrow> appointment \<Rightarrow> (string \<times> director) list \<Rightarrow> (string \<times> director) list" where
  "record_appointment officer_id officer_name appt ds =
     (let ds1 = (if map_of ds officer_id = None
                 then AList.update officer_id
                        \<lparr>d_name = officer_name, d_appointments = [], d_company_count = 0\<rparr> ds
                 else ds)
      in case map_of ds1 officer_id of
           None \<Rightarrow> ds1
         | Some d \<Rightarrow>
             AList.update officer_id
               (d\<lparr>d_appointments := d_appointments d @ [appt],
                  d_company_count := int (length (d_appointments d @ [appt]))\<rparr>) ds1)"

text \<open>
  Lines 106 to 213, the body of the loop over the officers of the company. The
  handler of the inner \<^verbatim>\<open>try\<close> only prints, so the state at the exception is the
  state the loop goes on with.
\<close>

definition process_officer ::
  "api_client \<Rightarrow> bool \<Rightarrow> int \<Rightarrow> string \<Rightarrow> profile \<Rightarrow> int \<Rightarrow> officer \<Rightarrow> scan_state \<Rightarrow> scan_state" where
  "process_officer client active_only max_depth company_number profile depth officer st =
     (let officer_name = get_default (o_name officer);
          officer_role = get_default (o_officer_role officer);
          officer_id = officer_id_of officer;
          appt = \<lparr>a_company_number = company_number,
                  a_company_name = p_company_name profile,
                  a_role = officer_role,
                  a_appointed_on = o_appointed_on officer,
                  a_resigned_on = o_resigned_on officer,
                  a_date_of_birth = o_date_of_birth officer\<rparr>;
          conn = \<lparr>n_company_number = company_number,
                  n_company_name = p_company_name profile,
                  n_director_id = officer_id,
                  n_director_name = officer_name,
                  n_role = officer_role,
                  n_depth = depth\<rparr>;
          st1 = st\<lparr>network := (network st)
                  \<lparr>directors := record_appointment officer_id officer_name appt (directors (network st)),
                   connections := connections (network st) @ [conn]\<rparr>\<rparr>
      in if depth < max_depth \<and> officer_id |\<notin>| scanned_officers (self st1) then
           (case search_officer client active_only depth officer_name officer_id st1 of
              Inl (e, st2) \<Rightarrow> st2
            | Inr st2 \<Rightarrow> st2)
         else st1)"

text \<open>Lines 89 to 102: the node is stored and the company is marked as scanned.\<close>

definition store_company :: "string \<Rightarrow> profile \<Rightarrow> int \<Rightarrow> officer list \<Rightarrow> scan_state \<Rightarrow> scan_state" where
  "store_company company_number profile depth officers st =
     (let node = \<lparr>c_company_number = company_number,
                  c_company_name = p_company_name profile,
                  c_company_status = p_company_status profile,
                  c_company_type = p_type profile,
                  c_incorporation_date = p_date_of_creation profile,
                  c_depth = depth,
                  c_officer_count = int (length officers)\<rparr>;
          net = network st;
          stats = statistics net
      in log_event (Store_company company_number)
           (st\<lparr>network := net
                  \<lparr>companies := AList.update company_number node (companies net),
                   statistics := stats\<lparr>depth_reached := max (depth_reached stats) depth\<rparr>\<rparr>,
               self := (self st)
                  \<lparr>scanned_companies := finsert company_number (scanned_companies (self st))\<rparr>\<rparr>))"

text \<open>
  Lines 71 to 213, the body of the outer \<^verbatim>\<open>try\<close>: the expansion of one company.
  An exception of \<^verbatim>\<open>get_company_profile\<close> or \<^verbatim>\<open>get_officers\<close> leaves it, with
  the state at that point.
\<close>

definition expand_company ::
  "api_client \<Rightarrow> bool \<Rightarrow> int \<Rightarrow> string \<Rightarrow> int \<Rightarrow> scan_state \<Rightarrow> error \<times> scan_state + scan_state" where
  "expand_company client active_only max_depth company_number depth st =
     (let st1 = log_event (Call_get_company_profile company_number) st in
      case get_company_profile client (events st) company_number of
        Inl e \<Rightarrow> Inl (e, st1)
      | Inr profile \<Rightarrow>
          if active_only \<and> p_company_status profile \<noteq> Some ''active'' then Inr st1
          else
            (let st2 = log_event (Call_get_officers company_number) st1 in
             case get_officers client (events st1) company_number of
               Inl e \<Rightarrow> Inl (e, st2)
             | Inr all_officers \<Rightarrow>
                 (let officers = (if active_only
                                  then filter (\<lambda>officer. \<not> truthy (o_resigned_on officer)) all_officers
                                  else all_officers)
                  in Inr (fold (process_officer client active_only max_depth company_number
                                  profile depth)
                            officers
                            (store_company company_number profile depth officers st2)))))"

text \<open>
  Lines 62 to 216, one turn of the \<^verbatim>\<open>while\<close> loop. \<^verbatim>\<open>pop(0)\<close> raises on an
  empty list, outside every \<^verbatim>\<open>try\<close>. The handler of the outer \<^verbatim>\<open>try\<close> only
  prints.
\<close>

definition scan_step ::
  "api_client \<Rightarrow> bool \<Rightarrow> int \<Rightarrow> scan_state \<Rightarrow> error \<times> scan_state + scan_state" where
  "scan_step client active_only max_depth st =
     (case companies_to_scan st of
        [] \<Rightarrow> Inl (IndexError, st)
      | (company_number, depth) # rest \<Rightarrow>
          (let st0 = st\<lparr>companies_to_scan := rest\<rparr> in
           if company_number |\<in>| scanned_companies (self st0) \<or> depth > max_depth then Inr st0
           else
             (case expand_company client active_only max_depth company_number depth st0 of
                Inl (e, st1) \<Rightarrow> Inr st1
              | Inr st1 \<Rightarrow> Inr st1)))"

text \<open>\<^verbatim>\<open>while companies_to_scan and len(self.scanned_companies) < max_companies\<close>\<close>

definition loop_condition :: "int \<Rightarrow> scan_state \<Rightarrow> bool" where
  "loop_condition max_companies st \<longleftrightarrow>
     companies_to_scan st \<noteq> [] \<and> int (fcard (scanned_companies (self st))) < max_companies"

text \<open>The loop of lines 61 to 216. Its termination is proved below.\<close>

function scan_loop ::
  "api_client \<Rightarrow> bool \<Rightarrow> int \<Rightarrow> int \<Rightarrow> scan_state \<Rightarrow> error \<times> scan_state + scan_state" where
  "scan_loop client active_only max_depth max_companies st =
     (if loop_condition max_companies st then
        (case scan_step client active_only max_depth st of
           Inl (e, st1) \<Rightarrow> Inl (e, st1)
         | Inr st1 \<Rightarrow> scan_loop client active_only max_depth max_companies st1)
      else Inr st)"
  by pat_completeness auto

text \<open>Lines 40 to 59: the empty snapshot, the two sets reset, the seeds at depth 0.\<close>

definition initial_state :: "scanner \<Rightarrow> string list \<Rightarrow> int \<Rightarrow> scan_state" where
  "initial_state old_self seed_companies max_depth =
     \<lparr>self = old_self\<lparr>scanned_companies := {||}, scanned_officers := {||}\<rparr>,
      network = \<lparr>net_seed_companies = seed_companies,
                 net_max_depth = max_depth,
                 companies = [],
                 directors = [],
                 connections = [],
                 statistics = \<lparr>total_companies = 0, total_directors = 0,
                                total_connections = 0, depth_reached = 0\<rparr>\<rparr>,
      companies_to_scan = map (\<lambda>cnum. (cnum, 0)) seed_companies,
      events = []\<rparr>"

text \<open>Lines 219 to 221.\<close>

definition update_statistics :: "scan_state \<Rightarrow> scan_state" where
  "update_statistics st =
     (let net = network st in
      st\<lparr>network := net\<lparr>statistics := (statistics net)
             \<lparr>total_companies := int (length (companies net)),
              total_directors := int (length (directors net)),
              total_connections := int (length (connections net))\<rparr>\<rparr>\<rparr>)"

text \<open>The whole call, with the final values of all its variables.\<close>

definition scan_run ::
  "api_client \<Rightarrow> scanner \<Rightarrow> string list \<Rightarrow> int \<Rightarrow> int \<Rightarrow> bool \<Rightarrow> error \<times> scan_state + scan_state" where
  "scan_run client old_self seed_companies max_depth max_companies active_only =
     (case scan_loop client active_only max_depth max_companies
             (initial_state old_self seed_companies max_depth) of
        Inl (e, st) \<Rightarrow> Inl (e, st)
      | Inr st \<Rightarrow> Inr (update_statistics st))"

text \<open>
  \<^verbatim>\<open>scan_network\<close>: what the caller gets is the snapshot, or the exception; the
  scanner object is left with the two sets of the run.
\<close>

definition scan_network ::
  "api_client \<Rightarrow> scanner \<Rightarrow> string list \<Rightarrow> int \<Rightarrow> int \<Rightarrow> bool \<Rightarrow> error + network \<times> scanner" where
  "scan_network client old_self seed_companies max_depth max_companies active_only =
     (case scan_run client old_self seed_companies max_depth max_companies active_only of
        Inl (e, st) \<Rightarrow> Inl e
      | Inr st \<Rightarrow> Inr (network st, self st))"

section \<open>find\_company\_clusters\<close>

text \<open>
  \<^verbatim>\<open>graph\<close> is a \<^verbatim>\<open>defaultdict(set)\<close>: every key has a set, empty until something
  is added. The set of a key is the list of its elements in the order they were
  added. Python does not say in which order it iterates over a set; \<open>set_order\<close>,
  a parameter, turns the elements of a set into the order of the iteration.
\<close>

definition related_companies :: "connection list \<Rightarrow> string \<Rightarrow> string list" where
  "related_companies conns director =
     map n_company_number (filter (\<lambda>c. n_director_id c = director) conns)"

definition add_neighbor :: "string \<Rightarrow> string \<Rightarrow> (string \<Rightarrow> string list) \<Rightarrow> (string \<Rightarrow> string list)" where
  "add_neighbor company related graph =
     (if related \<in> set (graph company) then graph
      else graph(company := graph company @ [related]))"

text \<open>Lines 269 to 284.\<close>

definition build_graph :: "connection list \<Rightarrow> (string \<Rightarrow> string list)" where
  "build_graph conns =
     fold (\<lambda>connection graph.
             fold (\<lambda>related g. if related \<noteq> n_company_number connection
                                then add_neighbor (n_company_number connection) related g
                                else g)
                  (related_companies conns (n_director_id connection)) graph)
          conns (\<lambda>company. [])"

text \<open>
  Lines 290 to 295, the recursive \<^verbatim>\<open>dfs\<close>, and its loop over the neighbours. The
  first argument is the number of nested calls the interpreter still allows.
\<close>

fun dfs ::
    "nat \<Rightarrow> (string list \<Rightarrow> string list) \<Rightarrow> (string \<Rightarrow> string list) \<Rightarrow> string
       \<Rightarrow> string fset \<times> string list \<Rightarrow> error + string fset \<times> string list"
  and dfs_neighbors ::
    "nat \<Rightarrow> (string list \<Rightarrow> string list) \<Rightarrow> (string \<Rightarrow> string list) \<Rightarrow> string list
       \<Rightarrow> string fset \<times> string list \<Rightarrow> error + string fset \<times> string list" where
  "dfs 0 set_order graph node (visited, cluster) = Inl RecursionError"
| "dfs (Suc limit) set_order graph node (visited, cluster) =
     dfs_neighbors limit set_order graph (set_order (graph node))
       (finsert node visited, cluster @ [node])"
| "dfs_neighbors limit set_order graph [] (visited, cluster) = Inr (visited, cluster)"
| "dfs_neighbors limit set_order graph (neighbor # rest) (visited, cluster) =
     (if neighbor |\<notin>| visited then
        (case dfs limit set_order graph neighbor (visited, cluster) of
           Inl e \<Rightarrow> Inl e
         | Inr (visited', cluster') \<Rightarrow>
             dfs_neighbors limit set_order graph rest (visited', cluster'))
      else dfs_neighbors limit set_order graph rest (visited, cluster))"

text \<open>Lines 297 to 302, the loop over the keys of \<^verbatim>\<open>network['companies']\<close>.\<close>

fun collect_clusters ::
  "nat \<Rightarrow> (string list \<Rightarrow> string list) \<Rightarrow> (string \<Rightarrow> string list) \<Rightarrow> string list
     \<Rightarrow> string fset \<times> string list list \<Rightarrow> error + string fset \<times> string list list" where
  "collect_clusters limit set_order graph [] (visited, clusters) = Inr (visited, clusters)"
| "collect_clusters limit set_order graph (company # rest) (visited, clusters) =
     (if company |\<notin>| visited then
        (case dfs limit set_order graph company (visited, []) of
           Inl e \<Rightarrow> Inl e
         | Inr (visited', cluster) \<Rightarrow>
             collect_clusters limit set_order graph rest
               (visited', if length cluster > 1 then clusters @ [cluster] else clusters))
      else collect_clusters limit set_order graph rest (visited, clusters))"

text \<open>
  \<^verbatim>\<open>clusters.sort(key=len, reverse=True)\<close>: Python's sort is stable, also with
  \<^verbatim>\<open>reverse=True\<close>, so it is the stable sort by the negated length.
\<close>

definition find_company_clusters ::
  "nat \<Rightarrow> (string list \<Rightarrow> string list) \<Rightarrow> network \<Rightarrow> error + string list list" where
  "find_company_clusters limit set_order net =
     (case collect_clusters limit set_order (build_graph (connections net))
             (map fst (companies net)) ({||}, []) of
        Inl e \<Rightarrow> Inl e
      | Inr (visited, clusters) \<Rightarrow> Inr (sort_key (\<lambda>cluster. - int (length cluster)) clusters))"

section \<open>Notions the statements use\<close>

text \<open>
  The state after at most \<open>n\<close> turns of the loop: the points of a run at which the
  snapshot can be observed between two turns.
\<close>

fun scan_turns ::
  "nat \<Rightarrow> api_client \<Rightarrow> bool \<Rightarrow> int \<Rightarrow> int \<Rightarrow> scan_state \<Rightarrow> error \<times> scan_state + scan_state" where
  "scan_turns 0 client active_only max_depth max_companies st = Inr st"
| "scan_turns (Suc n) client active_only max_depth max_companies st =
     (if loop_condition max_companies st then
        (case scan_step client active_only max_depth st of
           Inl (e, st1) \<Rightarrow> Inl (e, st1)
         | Inr st1 \<Rightarrow> scan_turns n client active_only max_depth max_companies st1)
      else Inr st)"

text \<open>
  A company the scanner can expand after \<open>history\<close>: its profile is returned and
  passes the \<^verbatim>\<open>active_only\<close> test, and then its officers are returned.
\<close>

definition expandable :: "api_client \<Rightarrow> bool \<Rightarrow> event list \<Rightarrow> string \<Rightarrow> bool" where
  "expandable client active_only history company_number \<longleftrightarrow>
     (case get_company_profile client history company_number of
        Inl e \<Rightarrow> False
      | Inr profile \<Rightarrow>
          \<not> (active_only \<and> p_company_status profile \<noteq> Some ''active'')
          \<and> (case get_officers client (history @ [Call_get_company_profile company_number])
                     company_number of
               Inl e \<Rightarrow> False
             | Inr officers \<Rightarrow> True))"

text \<open>
  Two companies are adjacent when some director has a connection to both.
\<close>

definition shared_director :: "connection list \<Rightarrow> (string \<times> string) set" where
  "shared_director conns =
     {(x, y). \<exists>c1 \<in> set conns. \<exists>c2 \<in> set conns.
                n_company_number c1 = x \<and> n_company_number c2 = y
                \<and> n_director_id c1 = n_director_id c2}"

section \<open>Two registries for the examples\<close>

text \<open>
  \<open>example_client\<close>: the companies A and B are active and share the officer AL, who
  is found by the search; the profile of C cannot be fetched. \<open>failing_search\<close>
  is the same registry with a search that always raises. Both answer a request the
  same way at every time.
\<close>

definition officer_al :: "string \<Rightarrow> officer" where
  "officer_al appointed =
     \<lparr>o_name = Some ''AL'', o_officer_role = Some ''director'',
      o_appointed_on = Some appointed, o_resigned_on = None, o_date_of_birth = None\<rparr>"

definition active_profile :: "string \<Rightarrow> profile" where
  "active_profile c =
     \<lparr>p_company_name = Some c, p_company_status = Some ''active'',
      p_type = Some ''ltd'', p_date_of_creation = None\<rparr>"

definition appointed_to :: "string \<Rightarrow> officer_appointment" where
  "appointed_to c =
     \<lparr>t_company_number = Some c, t_company_status = Some ''active'', t_resigned_on = None\<rparr>"

definition example_client :: api_client where
  "example_client =
     \<lparr>get_company_profile =
        (\<lambda>history c.
           if c = ''A'' \<or> c = ''B'' then Inr (active_profile c) else Inl (ApiError ''404'')),
      get_officers =
        (\<lambda>history c.
              if c = ''A'' then Inr [officer_al ''2001'']
              else if c = ''B'' then Inr [officer_al ''2002'']
              else Inl (ApiError ''404'')),
      search_officers =
        (\<lambda>history n.
              if n = ''AL''
              then Inr [\<lparr>r_title = Some ''Al'', r_links_self = Some ''/officers/x/appointments''\<rparr>]
              else Inr []),
      get_officer_appointments =
        (\<lambda>history i.
              if i = ''x'' then Inr [appointed_to ''A'', appointed_to ''B'']
              else Inl (ApiError ''404''))\<rparr>"

definition failing_search :: api_client where
  "failing_search =
     example_client
       \<lparr>get_officers :=
          (\<lambda>history c.
             if c = ''A'' \<or> c = ''B'' then Inr [officer_al ''2001''] else Inl (ApiError ''404'')),
        search_officers := (\<lambda>history n. Inl (ApiError ''500''))\<rparr>"


definition fresh_scanner :: scanner where
  "fresh_scanner = \<lparr>scanned_companies = {||}, scanned_officers = {||}\<rparr>"

text \<open>A snapshot for \<^verbatim>\<open>find_company_clusters\<close>: eight companies and five directors.\<close>

definition example_network :: network where
  "example_network =
     \<lparr>net_seed_companies = [''A''], net_max_depth = 1,
      companies = map (\<lambda>c. (c, \<lparr>c_company_number = c, c_company_name = Some c,
                                c_company_status = Some ''active'', c_company_type = Some ''ltd'',
                                c_incorporation_date = None, c_depth = 0, c_officer_count = 1\<rparr>))
                      [''A'', ''B'', ''C'', ''D'', ''E'', ''F'', ''G'', ''H''],
      directors = [],
      connections = map (\<lambda>(c, d). \<lparr>n_company_number = c, n_company_name = Some c,
                                    n_director_id = d, n_director_name = d,
                                    n_role = ''director'', n_depth = 0\<rparr>)
                      [(''A'', ''p''), (''B'', ''p''), (''C'', ''q''), (''D'', ''r''), (''E'', ''r''),
                       (''E'', ''s''), (''F'', ''s''), (''G'', ''t''), (''H'', ''t'')],
      statistics = \<lparr>total_companies = 8, total_directors = 5,
                     total_connections = 9, depth_reached = 0\<rparr>\<rparr>"

section \<open>Invariants of the loop\<close>

text \<open>
  The keys of \<^verbatim>\<open>network['companies']\<close> are the scanned companies, and every
  connection has its company among them, at the depth the company was stored with.
\<close>

definition consistent :: "scan_state \<Rightarrow> bool" where
  "consistent st \<longleftrightarrow>
     fst ` set (companies (network st)) = fset (scanned_companies (self st))
     \<and> (\<forall>conn \<in> set (connections (network st)).
          \<exists>node. map_of (companies (network st)) (n_company_number conn) = Some node
                 \<and> c_depth node = n_depth conn)"

text \<open>The calls an officer of a company gives rise to (lines 148 to 213).\<close>

definition officer_event :: "event \<Rightarrow> bool" where
  "officer_event ev \<longleftrightarrow>
     (case ev of Call_search_officers n \<Rightarrow> True
               | Call_get_officer_appointments i \<Rightarrow> True
               | _ \<Rightarrow> False)"

text \<open>
  The keys of \<^verbatim>\<open>network['companies']\<close> are the scanned companies, each once, and there
  are no more of them than the cap, or none under a negative cap.
\<close>

definition within_cap :: "int \<Rightarrow> scan_state \<Rightarrow> bool" where
  "within_cap max_companies st \<longleftrightarrow>
     distinct (map fst (companies (network st)))
     \<and> fst ` set (companies (network st)) = fset (scanned_companies (self st))
     \<and> int (fcard (scanned_companies (self st))) \<le> max 0 max_companies"

text \<open>The events about one company: the two requests for it and the store of its node.\<close>

definition about :: "string \<Rightarrow> event \<Rightarrow> bool" where
  "about c ev \<longleftrightarrow>
     ev = Call_get_company_profile c \<or> ev = Call_get_officers c \<or> ev = Store_company c"


text \<open>The edges of the adjacency list of \<^verbatim>\<open>find_company_clusters\<close>.\<close>

definition edges :: "(string \<Rightarrow> string list) \<Rightarrow> (string \<times> string) set" where
  "edges graph = {(x, y). y \<in> set (graph x)}"

text \<open>
  What a call of \<^verbatim>\<open>dfs\<close> does to \<^verbatim>\<open>visited\<close> and \<^verbatim>\<open>cluster\<close>: it adds the same new nodes to
  both, each once, none of them visited before, and all of them reachable from the roots.
\<close>

definition grown ::
  "(string \<Rightarrow> string list) \<Rightarrow> string set \<Rightarrow> string fset \<times> string list
     \<Rightarrow> string fset \<times> string list \<Rightarrow> bool" where
  "grown graph roots s s' \<longleftrightarrow>
     (\<exists>new. snd s' = snd s @ new \<and> fset (fst s') = fset (fst s) \<union> set new
          \<and> distinct new \<and> set new \<inter> fset (fst s) = {}
          \<and> (\<forall>y \<in> set new. \<exists>r \<in> roots. (r, y) \<in> (edges graph)\<^sup>*))"

text \<open>A cluster of at least two companies, each once, all reachable from one of them.\<close>

definition one_component :: "(string \<Rightarrow> string list) \<Rightarrow> string list \<Rightarrow> bool" where
  "one_component graph cluster \<longleftrightarrow>
     1 < length cluster \<and> distinct cluster
     \<and> (\<exists>root. \<forall>y \<in> set cluster. (root, y) \<in> (edges graph)\<^sup>*)"

section \<open>Theorems\<close>

subsection \<open>What the steps leave unchanged, and termination of the loop\<close>

lemma log_event_simps [simp]:
  "self (log_event e st) = self st"
  "network (log_event e st) = network st"
  "companies_to_scan (log_event e st) = companies_to_scan st"
  "events (log_event e st) = events st @ [e]"
  by (simp_all add: log_event_def)

lemma mark_officer_simps [simp]:
  "scanned_companies (self (mark_officer i st)) = scanned_companies (self st)"
  "scanned_officers (self (mark_officer i st)) = finsert i (scanned_officers (self st))"
  "network (mark_officer i st) = network st"
  "companies_to_scan (mark_officer i st) = companies_to_scan st"
  "events (mark_officer i st) = events st"
  by (simp_all add: mark_officer_def)

lemma fetch_appointments_frame [simp]:
  "self (fetch_appointments client ao d i st) = self st"
  "network (fetch_appointments client ao d i st) = network st"
  by (simp_all add: fetch_appointments_def Let_def split: sum.splits)

lemma search_officer_frame:
  "search_officer client ao d n i st = Inr st' \<or> search_officer client ao d n i st = Inl (e, st') \<Longrightarrow>
     scanned_companies (self st') = scanned_companies (self st) \<and> network st' = network st"
  by (auto simp: search_officer_def Let_def split: if_splits sum.splits option.splits)

lemma process_officer_scanned [simp]:
  "scanned_companies (self (process_officer client ao md c p d off st)) = scanned_companies (self st)"
  unfolding process_officer_def Let_def
  by (auto split: sum.splits dest: search_officer_frame[OF disjI1] search_officer_frame[OF disjI2])

lemma fold_process_officer_scanned [simp]:
  "scanned_companies (self (fold (process_officer client ao md c p d) offs st)) = scanned_companies (self st)"
  by (induction offs arbitrary: st) simp_all

lemma store_company_scanned [simp]:
  "scanned_companies (self (store_company c p d offs st)) = finsert c (scanned_companies (self st))"
  by (simp add: store_company_def Let_def)

lemma expand_company_scanned:
  "expand_company client ao md c d st = Inr st' \<or> expand_company client ao md c d st = Inl (e, st') \<Longrightarrow>
     (scanned_companies (self st') = scanned_companies (self st) \<and> companies_to_scan st' = companies_to_scan st)
     \<or> scanned_companies (self st') = finsert c (scanned_companies (self st))"
  by (auto simp: expand_company_def Let_def split: sum.splits if_splits)

lemma scan_step_progress:
  assumes "scan_step client ao md st = Inr st'"
  shows "(scanned_companies (self st') = scanned_companies (self st) \<and> length (companies_to_scan st') < length (companies_to_scan st))
     \<or> (\<exists>c. c |\<notin>| scanned_companies (self st) \<and> scanned_companies (self st') = finsert c (scanned_companies (self st)))"
  using assms
  by (auto simp: scan_step_def Let_def split: list.splits if_splits sum.splits prod.splits
      dest!: expand_company_scanned[OF disjI1] expand_company_scanned[OF disjI2])

termination scan_loop
proof (relation "measures [\<lambda>(client, ao, md, mc, st). nat (mc - int (fcard (scanned_companies (self st)))),
                          \<lambda>(client, ao, md, mc, st). length (companies_to_scan st)]")
  show "wf (measures [\<lambda>(client, ao, md, mc, st). nat (mc - int (fcard (scanned_companies (self st)))),
                          \<lambda>(client, ao, md, mc, st). length (companies_to_scan st)])" by simp
next
  fix client ao md mc st x2
  assume c: "loop_condition mc st" and s: "scan_step client ao md st = Inr x2"
  from scan_step_progress[OF s] c
  show "((client, ao, md, mc, x2), client, ao, md, mc, st)
       \<in> measures [\<lambda>(client, ao, md, mc, st). nat (mc - int (fcard (scanned_companies (self st)))),
                          \<lambda>(client, ao, md, mc, st). length (companies_to_scan st)]"
    by (auto simp: loop_condition_def fcard_finsert_disjoint)
qed

text \<open>
  C2. The claim: no sliding window of \<open>period\<close> seconds ever holds more than
  \<open>max_requests\<close> granted acquisitions. With one request allowed per ten seconds and
  the clock reading 0, 10 and 10 at three calls, the code grants all three without
  sleeping: the request of time 0 is not pruned (\<open>0 < 10 - 10\<close> is false) and the
  computed sleep time is \<open>0 + 10 - 10 = 0\<close>, which is not positive. Two grants then
  carry the timestamp 10, in a window that may hold one.
\<close>

theorem C2_acquire_overadmits_at_boundary:
  "acquire_all \<lparr>max_requests = 1, period = 10, requests = []\<rparr> [(0, 0), (10, 10), (10, 10)]
     = Inr (\<lparr>max_requests = 1, period = 10, requests = [0, 10, 10]\<rparr>,
            [(None, 0), (None, 10), (None, 10)])
   \<and> grants_in_window 10 10 [0, 10, 10] = 2
   \<and> \<not> (int (grants_in_window 10 10 [0, 10, 10]) \<le> 1)"
  by (simp add: acquire_def grants_in_window_def)

declare scan_loop.simps [simp del]

lemma scan_step_returns:
  "companies_to_scan st \<noteq> [] \<Longrightarrow> \<exists>st'. scan_step client ao md st = Inr st'"
  by (auto simp: scan_step_def Let_def split: list.splits sum.splits prod.splits)

lemma scan_loop_returns: "\<exists>st'. scan_loop client ao md mc st = Inr st'"
proof (induction client ao md mc st rule: scan_loop.induct)
  case (1 client ao md mc st)
  show ?case
  proof (cases "loop_condition mc st")
    case False
    then show ?thesis by (simp add: scan_loop.simps)
  next
    case True
    then have "companies_to_scan st \<noteq> []" by (simp add: loop_condition_def)
    then obtain st1 where s: "scan_step client ao md st = Inr st1"
      using scan_step_returns by blast
    with 1[OF True s] True show ?thesis by (simp add: scan_loop.simps[of client ao md mc st])
  qed
qed

lemma scan_loop_invariant:
  assumes "scan_loop client ao md mc st = Inr st'"
    and "P st"
    and "\<And>s s'. P s \<Longrightarrow> loop_condition mc s \<Longrightarrow> scan_step client ao md s = Inr s' \<Longrightarrow> P s'"
  shows "P st' \<and> \<not> loop_condition mc st'"
  using assms
proof (induction client ao md mc st rule: scan_loop.induct)
  case (1 client ao md mc st)
  show ?case
  proof (cases "loop_condition mc st")
    case False
    with 1(2,3) show ?thesis by (simp add: scan_loop.simps[of client ao md mc st])
  next
    case True
    then have "companies_to_scan st \<noteq> []" by (simp add: loop_condition_def)
    then obtain st1 where s: "scan_step client ao md st = Inr st1"
      using scan_step_returns by blast
    from 1(2) True s have l: "scan_loop client ao md mc st1 = Inr st'"
      by (simp add: scan_loop.simps[of client ao md mc st])
    from 1(4)[OF 1(3) True s] have "P st1" .
    from 1(1)[OF True s l this 1(4)] show ?thesis .
  qed
qed

lemma scanner_reset:
  "(s::scanner)\<lparr>scanned_companies := a, scanned_officers := b\<rparr>
     = \<lparr>scanned_companies = a, scanned_officers = b\<rparr>"
  by (cases s) simp

text \<open>
  C10. Two calls with equal arguments against the same client give equal results,
  whatever the two sets of the scanner hold when the call starts: \<open>self1\<close> and
  \<open>self2\<close> are any two scanners, for instance a fresh one and the one an earlier
  call has left behind. Both sets are reset before the loop starts.
\<close>

theorem C10_independent_of_earlier_calls:
  "scan_network client self1 seed_companies max_depth max_companies active_only
     = scan_network client self2 seed_companies max_depth max_companies active_only"
  by (simp add: scan_network_def scan_run_def initial_state_def scanner_reset)

subsection \<open>The best match\<close>






lemmas run_simps =
  scan_run_def initial_state_def loop_condition_def scan_step_def expand_company_def
  store_company_def process_officer_def search_officer_def fetch_appointments_def
  select_best_match_def exact_match_def is_corporate_def officer_id_of_def record_appointment_def
  update_statistics_def log_event_def mark_officer_def get_default_def truthy_def upper_def
  upper_char_def second_last_def Let_def fcard_finsert_if fcard_fempty scan_loop.simps
  example_client_def failing_search_def officer_al_def active_profile_def appointed_to_def
  fresh_scanner_def

subsection \<open>The two example runs\<close>

lemma example_run:
  "scan_run example_client fresh_scanner [''C'', ''A''] 1 100 True =
     Inr \<lparr>self = \<lparr>scanned_companies = {|''B'', ''A''|}, scanned_officers = {|''AL_2001''|}\<rparr>,
          network =
            \<lparr>net_seed_companies = [''C'', ''A''], net_max_depth = 1,
             companies =
               [(''A'', \<lparr>c_company_number = ''A'', c_company_name = Some ''A'',
                         c_company_status = Some ''active'', c_company_type = Some ''ltd'',
                         c_incorporation_date = None, c_depth = 0, c_officer_count = 1\<rparr>),
                (''B'', \<lparr>c_company_number = ''B'', c_company_name = Some ''B'',
                         c_company_status = Some ''active'', c_company_type = Some ''ltd'',
                         c_incorporation_date = None, c_depth = 1, c_officer_count = 1\<rparr>)],
             directors =
               [(''AL_2001'',
                 \<lparr>d_name = ''AL'',
                  d_appointments =
                    [\<lparr>a_company_number = ''A'', a_company_name = Some ''A'', a_role = ''director'',
                      a_appointed_on = Some ''2001'', a_resigned_on = None, a_date_of_birth = None\<rparr>],
                  d_company_count = 1\<rparr>),
                (''AL_2002'',
                 \<lparr>d_name = ''AL'',
                  d_appointments =
                    [\<lparr>a_company_number = ''B'', a_company_name = Some ''B'', a_role = ''director'',
                      a_appointed_on = Some ''2002'', a_resigned_on = None, a_date_of_birth = None\<rparr>],
                  d_company_count = 1\<rparr>)],
             connections =
               [\<lparr>n_company_number = ''A'', n_company_name = Some ''A'', n_director_id = ''AL_2001'',
                 n_director_name = ''AL'', n_role = ''director'', n_depth = 0\<rparr>,
                \<lparr>n_company_number = ''B'', n_company_name = Some ''B'', n_director_id = ''AL_2002'',
                 n_director_name = ''AL'', n_role = ''director'', n_depth = 1\<rparr>],
             statistics = \<lparr>total_companies = 2, total_directors = 2,
                            total_connections = 2, depth_reached = 1\<rparr>\<rparr>,
          companies_to_scan = [],
          events = [Call_get_company_profile ''C'',
                    Call_get_company_profile ''A'', Call_get_officers ''A'', Store_company ''A'',
                    Call_search_officers ''AL'', Call_get_officer_appointments ''x'',
                    Call_get_company_profile ''B'', Call_get_officers ''B'', Store_company ''B'']\<rparr>"
  by (simp add: run_simps)

lemma failing_search_run:
  "scan_run failing_search fresh_scanner [''A'', ''B''] 1 100 True = Inr st \<Longrightarrow>
     scanned_officers (self st) = {||}
     \<and> events st = [Call_get_company_profile ''A'', Call_get_officers ''A'', Store_company ''A'',
                    Call_search_officers ''AL'',
                    Call_get_company_profile ''B'', Call_get_officers ''B'', Store_company ''B'',
                    Call_search_officers ''AL'']"
  by (auto simp add: run_simps)

subsection \<open>Failures\<close>

lemma search_officer_Inr_marks:
  "search_officer client ao d n i st = Inr st' \<Longrightarrow> i |\<in>| scanned_officers (self st')"
  by (auto simp: search_officer_def Let_def split: if_splits sum.splits option.splits)

lemma search_officer_Inl:
  "search_officer client ao d n i st = Inl (e, st') \<Longrightarrow> st' = log_event (Call_search_officers n) st"
  by (auto simp: search_officer_def Let_def split: if_splits sum.splits option.splits)

text \<open>
  C7. The claim: an officer eligible for the search is in the set of scanned officers
  once it has been processed, whatever the search does, so that no identity is searched
  twice. In the registry \<open>failing_search\<close> the companies A and B have the same
  officer, AL appointed in 2001, and the search raises. The exception leaves the inner
  \<^verbatim>\<open>try\<close> before line 208 is reached: after the scan of both companies the
  identity is not in the set, and the search was called twice for it.
\<close>

theorem C7_failed_search_leaves_officer_unmarked:
  "(case scan_run failing_search fresh_scanner [''A'', ''B''] 1 100 True of
      Inl x \<Rightarrow> False
    | Inr st \<Rightarrow>
        ''AL_2001'' |\<notin>| scanned_officers (self st)
        \<and> count_list (events st) (Call_search_officers ''AL'') = 2)"
proof (cases "scan_run failing_search fresh_scanner [''A'', ''B''] 1 100 True")
  case (Inl x)
  then show ?thesis
    using scan_loop_returns[of failing_search True 1 100 "initial_state fresh_scanner [''A'', ''B''] 1"]
    by (auto simp: scan_run_def split: sum.splits)
next
  case (Inr st)
  from failing_search_run[OF Inr] Inr show ?thesis by simp
qed

text \<open>
  C5. \<^verbatim>\<open>scan_network\<close> returns a snapshot for every client, whatever its calls
  raise. When the profile or the officers of the company at the head of the frontier
  cannot be fetched, the turn of the loop leaves the snapshot and the two sets as they
  were, drops the item and the loop goes on with the rest of the frontier. When the
  search for an officer raises, the officer adds to the snapshot what it adds when no
  search is attempted at all (its appointment and its connection), and nothing to the
  frontier. When the appointments of the matched officer cannot be fetched, nothing
  changes but the log of calls.
\<close>

theorem C5_scan_network_never_raises:
  "(\<exists>net self'. scan_network client old_self seed_companies max_depth max_companies active_only
                   = Inr (net, self'))
   \<and> (companies_to_scan st = (company_number, depth) # rest
        \<and> (isl (get_company_profile client (events st) company_number)
            \<or> isl (get_officers client (events st @ [Call_get_company_profile company_number])
                     company_number))
      \<longrightarrow> (\<exists>st'. scan_step client active_only max_depth st = Inr st'
                 \<and> network st' = network st \<and> self st' = self st \<and> companies_to_scan st' = rest
                 \<and> (loop_condition max_companies st \<longrightarrow>
                      scan_loop client active_only max_depth max_companies st
                        = scan_loop client active_only max_depth max_companies st')))
   \<and> (isl (search_officers client (events st) (get_default (o_name officer)))
        \<and> \<not> is_corporate (get_default (o_name officer))
      \<longrightarrow> self (process_officer client active_only max_depth company_number profile depth officer st)
            = self st
          \<and> companies_to_scan
              (process_officer client active_only max_depth company_number profile depth officer st)
            = companies_to_scan st
          \<and> network (process_officer client active_only max_depth company_number profile depth officer st)
            = network (process_officer client active_only depth company_number profile depth officer st))
   \<and> (isl (get_officer_appointments client (events st) officer_api_id)
      \<longrightarrow> fetch_appointments client active_only depth officer_api_id st
            = log_event (Call_get_officer_appointments officer_api_id) st)"
proof (intro conjI impI)
  obtain st' where l: "scan_loop client active_only max_depth max_companies
      (initial_state old_self seed_companies max_depth) = Inr st'"
    using scan_loop_returns by blast
  then show "\<exists>net self'. scan_network client old_self seed_companies max_depth max_companies active_only
                   = Inr (net, self')"
    by (simp add: scan_network_def scan_run_def)
next
  assume a: "companies_to_scan st = (company_number, depth) # rest
        \<and> (isl (get_company_profile client (events st) company_number)
            \<or> isl (get_officers client (events st @ [Call_get_company_profile company_number])
                     company_number))"
  then have "\<exists>st'. scan_step client active_only max_depth st = Inr st'
                 \<and> network st' = network st \<and> self st' = self st \<and> companies_to_scan st' = rest"
    by (auto simp: scan_step_def expand_company_def Let_def isl_def split: sum.splits)
  then obtain st' where s: "scan_step client active_only max_depth st = Inr st'"
    "network st' = network st" "self st' = self st" "companies_to_scan st' = rest" by blast
  then show "\<exists>st'. scan_step client active_only max_depth st = Inr st'
                 \<and> network st' = network st \<and> self st' = self st \<and> companies_to_scan st' = rest
                 \<and> (loop_condition max_companies st \<longrightarrow>
                      scan_loop client active_only max_depth max_companies st
                        = scan_loop client active_only max_depth max_companies st')"
    by (intro exI[of _ st']) (simp add: scan_loop.simps[of client active_only max_depth max_companies st])
next
  assume a: "isl (search_officers client (events st) (get_default (o_name officer)))
        \<and> \<not> is_corporate (get_default (o_name officer))
"
  then show "self (process_officer client active_only max_depth company_number profile depth officer st)
            = self st"
    "companies_to_scan
              (process_officer client active_only max_depth company_number profile depth officer st)
            = companies_to_scan st"
    "network (process_officer client active_only max_depth company_number profile depth officer st)
            = network (process_officer client active_only depth company_number profile depth officer st)"
    by (auto simp: process_officer_def search_officer_def Let_def isl_def mark_officer_def
        split: sum.splits if_splits)
next
  assume "isl (get_officer_appointments client (events st) officer_api_id)"
  then show "fetch_appointments client active_only depth officer_api_id st
            = log_event (Call_get_officer_appointments officer_api_id) st"
    by (auto simp: fetch_appointments_def Let_def isl_def)
qed

text \<open>
  In \<open>example_client\<close> the profile of C cannot be fetched, nor the appointments of the
  officer y; in \<open>failing_search\<close> the search for AL raises.
\<close>

theorem C5_scan_network_never_raises_witness:
  "(\<exists>net self'. scan_network example_client fresh_scanner [''C'', ''A''] 1 100 True = Inr (net, self'))
   \<and> isl (get_company_profile example_client [] ''C'')
   \<and> (\<exists>st'. scan_step example_client True 1 (initial_state fresh_scanner [''C'', ''A''] 1) = Inr st'
           \<and> network st' = network (initial_state fresh_scanner [''C'', ''A''] 1)
           \<and> self st' = self (initial_state fresh_scanner [''C'', ''A''] 1)
           \<and> companies_to_scan st' = [(''A'', 0)])
   \<and> isl (search_officers failing_search [] ''AL'')
   \<and> \<not> is_corporate ''AL''
   \<and> companies_to_scan
        (process_officer failing_search True 1 ''A'' (active_profile ''A'') 0 (officer_al ''2001'')
           (initial_state fresh_scanner [] 1)) = []
   \<and> isl (get_officer_appointments example_client [] ''y'')
   \<and> fetch_appointments example_client True 0 ''y'' (initial_state fresh_scanner [] 1)
        = log_event (Call_get_officer_appointments ''y'') (initial_state fresh_scanner [] 1)"
proof -
  let ?st0 = "initial_state fresh_scanner [''C'', ''A''] 1"
  let ?st1 = "initial_state fresh_scanner [] 1"
  note thm1 = C5_scan_network_never_raises
    [where client = example_client and old_self = fresh_scanner and seed_companies = "[''C'', ''A'']"
       and max_depth = 1 and max_companies = 100 and active_only = True and st = ?st0
       and company_number = "''C''" and depth = 0 and rest = "[(''A'', 0)]" and officer_api_id = "''y''"]
  note thm2 = C5_scan_network_never_raises
    [where client = failing_search and active_only = True and st = ?st1 and max_depth = 1
       and company_number = "''A''" and depth = 0 and officer = "officer_al ''2001''"
       and profile = "active_profile ''A''"]
  have ev0: "events ?st0 = []" "events ?st1 = []"
    by (simp_all add: initial_state_def)
  have h1: "companies_to_scan ?st0 = (''C'', 0) # [(''A'', 0)]
        \<and> (isl (get_company_profile example_client (events ?st0) ''C'')
            \<or> isl (get_officers example_client (events ?st0 @ [Call_get_company_profile ''C'']) ''C''))"
    by (simp add: initial_state_def example_client_def)
  have p: "isl (get_company_profile example_client [] ''C'')"
    by (simp add: example_client_def)
  have h2: "isl (search_officers failing_search (events ?st1) (get_default (o_name (officer_al ''2001''))))"
    by (simp add: failing_search_def example_client_def)
  have n: "get_default (o_name (officer_al ''2001'')) = ''AL''"
    by (simp add: officer_al_def get_default_def)
  have h3: "\<not> is_corporate ''AL''"
    by (simp add: is_corporate_def upper_def upper_char_def)
  have h4: "isl (get_officer_appointments example_client (events ?st1) ''y'')"
    by (simp add: example_client_def)
  have e: "companies_to_scan ?st1 = []" by (simp add: initial_state_def)
  from thm1 have a: "\<exists>net self'. scan_network example_client fresh_scanner [''C'', ''A''] 1 100 True = Inr (net, self')"
    by blast
  from thm1 h1 have b: "\<exists>st'. scan_step example_client True 1 ?st0 = Inr st'
           \<and> network st' = network ?st0 \<and> self st' = self ?st0 \<and> companies_to_scan st' = [(''A'', 0)]"
    by blast
  from thm2 h2 h3 n e have c: "companies_to_scan
        (process_officer failing_search True 1 ''A'' (active_profile ''A'') 0 (officer_al ''2001'') ?st1) = []"
    by simp
  note thm3 = C5_scan_network_never_raises
    [where client = example_client and active_only = True and st = ?st1 and depth = 0
       and officer_api_id = "''y''"]
  from thm3 h4 have d: "fetch_appointments example_client True 0 ''y'' ?st1
        = log_event (Call_get_officer_appointments ''y'') ?st1"
    by blast
  from a p b h2 n h3 c h4 d show ?thesis by (simp add: ev0)
qed

subsection \<open>The snapshot is consistent\<close>

lemma process_officer_companies [simp]:
  "companies (network (process_officer client ao md c p d off st)) = companies (network st)"
  unfolding process_officer_def Let_def
  by (auto split: sum.splits dest: search_officer_frame[OF disjI1] search_officer_frame[OF disjI2])

lemma process_officer_connections:
  "\<exists>conn. connections (network (process_officer client ao md c p d off st))
            = connections (network st) @ [conn]
          \<and> n_company_number conn = c \<and> n_depth conn = d"
  unfolding process_officer_def Let_def
  by (auto split: sum.splits dest: search_officer_frame[OF disjI1] search_officer_frame[OF disjI2])

lemma fold_process_officer_companies [simp]:
  "companies (network (fold (process_officer client ao md c p d) offs st)) = companies (network st)"
  by (induction offs arbitrary: st) simp_all

lemma fold_process_officer_connections:
  "\<exists>cs. connections (network (fold (process_officer client ao md c p d) offs st))
            = connections (network st) @ cs
          \<and> (\<forall>conn \<in> set cs. n_company_number conn = c \<and> n_depth conn = d)"
proof (induction offs arbitrary: st)
  case Nil
  then show ?case by simp
next
  case (Cons off offs)
  obtain conn where c: "connections (network (process_officer client ao md c p d off st))
            = connections (network st) @ [conn]" "n_company_number conn = c" "n_depth conn = d"
    using process_officer_connections by blast
  obtain cs where cs: "connections (network (fold (process_officer client ao md c p d) offs
        (process_officer client ao md c p d off st)))
      = connections (network (process_officer client ao md c p d off st)) @ cs"
      "\<forall>conn \<in> set cs. n_company_number conn = c \<and> n_depth conn = d"
    using Cons.IH by blast
  show ?case
    by (rule exI[of _ "conn # cs"]) (use c cs in simp)
qed

lemma store_company_connections [simp]:
  "connections (network (store_company c p d offs st)) = connections (network st)"
  by (simp add: store_company_def Let_def)

lemma store_company_companies:
  "\<exists>node. companies (network (store_company c p d offs st))
            = AList.update c node (companies (network st)) \<and> c_depth node = d"
  unfolding store_company_def Let_def
  by (intro exI[of _ "\<lparr>c_company_number = c, c_company_name = p_company_name p,
        c_company_status = p_company_status p, c_company_type = p_type p,
        c_incorporation_date = p_date_of_creation p, c_depth = d,
        c_officer_count = int (length offs)\<rparr>"]) simp

lemma consistent_log_event [simp]: "consistent (log_event ev st) = consistent st"
  by (simp add: consistent_def)

lemma expand_company_consistent:
  assumes "expand_company client ao md c d st = Inr st' \<or> expand_company client ao md c d st = Inl (e, st')"
    and "consistent st" and "c |\<notin>| scanned_companies (self st)"
  shows "consistent st'"
proof -
  { fix p offs
    let ?st2 = "log_event (Call_get_officers c) (log_event (Call_get_company_profile c) st)"
    let ?st3 = "store_company c p d offs ?st2"
    let ?st4 = "fold (process_officer client ao md c p d) offs ?st3"
    obtain node where n: "companies (network ?st3) = AList.update c node (companies (network st))"
      "c_depth node = d"
      using store_company_companies[of c p d offs ?st2] by auto
    obtain cs where cs: "connections (network ?st4) = connections (network st) @ cs"
      "\<forall>conn \<in> set cs. n_company_number conn = c \<and> n_depth conn = d"
      using fold_process_officer_connections[of client ao md c p d offs ?st3] by auto
    have notin: "c \<notin> fst ` set (companies (network st))"
      using assms(2,3) by (simp add: consistent_def)
    have "consistent ?st4"
      unfolding consistent_def
    proof (intro conjI ballI)
      show "fst ` set (companies (network ?st4)) = fset (scanned_companies (self ?st4))"
        using assms(2) n by (simp add: consistent_def AList.dom_update)
    next
      fix conn assume "conn \<in> set (connections (network ?st4))"
      then consider "conn \<in> set (connections (network st))" | "conn \<in> set cs"
        using cs(1) by auto
      then show "\<exists>node. map_of (companies (network ?st4)) (n_company_number conn) = Some node
                 \<and> c_depth node = n_depth conn"
      proof cases
        case 1
        with assms(2) obtain nd where nd: "map_of (companies (network st)) (n_company_number conn) = Some nd"
          "c_depth nd = n_depth conn" by (auto simp: consistent_def)
        then have "n_company_number conn \<noteq> c"
          using notin by (metis domI dom_map_of_conv_image_fst)
        with nd n show ?thesis by (simp add: update_conv')
      next
        case 2
        with cs(2) n show ?thesis by (simp add: update_conv')
      qed
    qed
  } note main = this
  from assms(1) show ?thesis
    using assms(2) main
    by (auto simp: expand_company_def Let_def split: sum.splits if_splits)
qed

lemma scan_step_consistent:
  assumes "scan_step client ao md st = Inr st'" and "consistent st"
  shows "consistent st'"
proof -
  have q: "\<And>r. consistent (st\<lparr>companies_to_scan := r\<rparr>)"
    using assms(2) by (simp add: consistent_def)
  show ?thesis
    using assms(1) q
    by (auto simp: scan_step_def Let_def split: list.splits if_splits sum.splits prod.splits
        intro: expand_company_consistent[OF disjI1] expand_company_consistent[OF disjI2])
qed

lemma initial_consistent: "consistent (initial_state s seeds md)"
  by (simp add: consistent_def initial_state_def)

lemma scan_run_consistent:
  assumes "scan_run client s seeds md mc ao = Inr st"
  shows "consistent st"
proof -
  from assms obtain st0 where l: "scan_loop client ao md mc (initial_state s seeds md) = Inr st0"
    and st: "st = update_statistics st0"
    by (auto simp: scan_run_def split: sum.splits)
  have "consistent st0"
    using scan_loop_invariant[OF l, of consistent] initial_consistent scan_step_consistent by blast
  then show ?thesis by (simp add: st consistent_def update_statistics_def Let_def)
qed

text \<open>
  C9. In the snapshot \<^verbatim>\<open>scan_network\<close> returns, every connection names a company
  that is a key of the companies, and its depth is the depth stored for that company.
\<close>

theorem C9_connections_refer_to_companies:
  assumes "scan_network client old_self seed_companies max_depth max_companies active_only
             = Inr (net, self')"
    and "conn \<in> set (connections net)"
  shows "\<exists>node. map_of (companies net) (n_company_number conn) = Some node
               \<and> c_depth node = n_depth conn"
proof -
  from assms(1) obtain st where "scan_run client old_self seed_companies max_depth max_companies active_only = Inr st"
    and "net = network st"
    by (auto simp: scan_network_def split: sum.splits)
  with scan_run_consistent assms(2) show ?thesis by (auto simp: consistent_def)
qed

text \<open>The connection of company B in the example run, at depth 1.\<close>

theorem C9_connections_refer_to_companies_witness:
  "\<exists>net self' conn.
     scan_network example_client fresh_scanner [''C'', ''A''] 1 100 True = Inr (net, self')
     \<and> conn \<in> set (connections net)
     \<and> n_company_number conn = ''B'' \<and> n_depth conn = 1
     \<and> (\<exists>node. map_of (companies net) (n_company_number conn) = Some node
               \<and> c_depth node = n_depth conn)"
proof -
  obtain st where r: "scan_run example_client fresh_scanner [''C'', ''A''] 1 100 True = Inr st"
    and c: "connections (network st) =
               [\<lparr>n_company_number = ''A'', n_company_name = Some ''A'', n_director_id = ''AL_2001'',
                 n_director_name = ''AL'', n_role = ''director'', n_depth = 0\<rparr>,
                \<lparr>n_company_number = ''B'', n_company_name = Some ''B'', n_director_id = ''AL_2002'',
                 n_director_name = ''AL'', n_role = ''director'', n_depth = 1\<rparr>]"
    using example_run by simp
  let ?conn = "\<lparr>n_company_number = ''B'', n_company_name = Some ''B'', n_director_id = ''AL_2002'',
                 n_director_name = ''AL'', n_role = ''director'', n_depth = 1\<rparr>"
  have s: "scan_network example_client fresh_scanner [''C'', ''A''] 1 100 True = Inr (network st, self st)"
    using r by (simp add: scan_network_def)
  have m: "?conn \<in> set (connections (network st))" using c by simp
  from C9_connections_refer_to_companies[OF s m] s m show ?thesis
    by (intro exI[of _ "network st"] exI[of _ "self st"] exI[of _ ?conn]) simp
qed

subsection \<open>What one turn of the loop does\<close>

lemma fetch_appointments_events:
  "events (fetch_appointments client ao d i st) = events st @ [Call_get_officer_appointments i]"
  by (simp add: fetch_appointments_def Let_def split: sum.splits)

lemma search_officer_events:
  "search_officer client ao d n i st = Inr st' \<or> search_officer client ao d n i st = Inl (e, st') \<Longrightarrow>
     \<exists>evs. events st' = events st @ evs \<and> (\<forall>ev \<in> set evs. officer_event ev)"
  by (auto simp: search_officer_def Let_def officer_event_def fetch_appointments_events
      split: if_splits sum.splits option.splits)

lemma process_officer_events:
  "\<exists>evs. events (process_officer client ao md c p d off st) = events st @ evs
         \<and> (\<forall>ev \<in> set evs. officer_event ev)"
proof -
  let ?st1 = "st\<lparr>network := (network st)
        \<lparr>directors := record_appointment (officer_id_of off) (get_default (o_name off))
            \<lparr>a_company_number = c, a_company_name = p_company_name p,
             a_role = get_default (o_officer_role off), a_appointed_on = o_appointed_on off,
             a_resigned_on = o_resigned_on off, a_date_of_birth = o_date_of_birth off\<rparr>
            (directors (network st)),
         connections := connections (network st) @
            [\<lparr>n_company_number = c, n_company_name = p_company_name p,
              n_director_id = officer_id_of off, n_director_name = get_default (o_name off),
              n_role = get_default (o_officer_role off), n_depth = d\<rparr>]\<rparr>\<rparr>"
  have e: "events ?st1 = events st" by simp
  show ?thesis
  proof (cases "d < md \<and> officer_id_of off |\<notin>| scanned_officers (self ?st1)")
    case False
    then have "process_officer client ao md c p d off st = ?st1"
      by (auto simp: process_officer_def Let_def)
    then show ?thesis by (intro exI[of _ "[]"]) simp
  next
    case True
    show ?thesis
    proof (cases "search_officer client ao d (get_default (o_name off)) (officer_id_of off) ?st1")
      case (Inl x)
      obtain e st2 where x: "x = (e, st2)" by (cases x)
      with Inl True have "process_officer client ao md c p d off st = st2"
        by (simp add: process_officer_def Let_def)
      with search_officer_events[OF disjI2, of client ao d _ _ ?st1 e st2] Inl x e show ?thesis
        by auto
    next
      case (Inr st2)
      with True have "process_officer client ao md c p d off st = st2"
        by (simp add: process_officer_def Let_def)
      with search_officer_events[OF disjI1, of client ao d _ _ ?st1 st2] Inr e show ?thesis
        by auto
    qed
  qed
qed

lemma fold_process_officer_events:
  "\<exists>evs. events (fold (process_officer client ao md c p d) offs st) = events st @ evs
         \<and> (\<forall>ev \<in> set evs. officer_event ev)"
proof (induction offs arbitrary: st)
  case Nil
  then show ?case by simp
next
  case (Cons off offs)
  obtain e1 where e1: "events (process_officer client ao md c p d off st) = events st @ e1"
    "\<forall>ev \<in> set e1. officer_event ev"
    using process_officer_events by blast
  obtain e2 where e2: "events (fold (process_officer client ao md c p d) offs
        (process_officer client ao md c p d off st))
      = events (process_officer client ao md c p d off st) @ e2"
    "\<forall>ev \<in> set e2. officer_event ev"
    using Cons.IH by blast
  show ?case
    by (rule exI[of _ "e1 @ e2"]) (use e1 e2 in auto)
qed

lemma store_company_events [simp]:
  "events (store_company c p d offs st) = events st @ [Store_company c]"
  by (simp add: store_company_def Let_def)

text \<open>The three outcomes of an expansion.\<close>

lemma expand_company_cases:
  assumes "expand_company client ao md c d st = Inr st' \<or> expand_company client ao md c d st = Inl (e, st')"
  shows "(\<not> expandable client ao (events st) c \<and> self st' = self st \<and> network st' = network st
           \<and> companies_to_scan st' = companies_to_scan st
           \<and> (events st' = events st @ [Call_get_company_profile c]
              \<or> events st' = events st @ [Call_get_company_profile c, Call_get_officers c]))
       \<or> (expandable client ao (events st) c
           \<and> scanned_companies (self st') = finsert c (scanned_companies (self st))
           \<and> (\<exists>node. companies (network st') = AList.update c node (companies (network st))
                     \<and> c_depth node = d)
           \<and> (\<exists>evs. events st' = events st @ [Call_get_company_profile c, Call_get_officers c,
                                               Store_company c] @ evs
                     \<and> (\<forall>ev \<in> set evs. officer_event ev)))"
proof (cases "get_company_profile client (events st) c")
  case (Inl x)
  with assms show ?thesis by (auto simp: expand_company_def Let_def expandable_def)
next
  case p: (Inr p)
  show ?thesis
  proof (cases "ao \<and> p_company_status p \<noteq> Some ''active''")
    case True
    with p assms show ?thesis by (auto simp: expand_company_def Let_def expandable_def)
  next
    case na: False
    show ?thesis
    proof (cases "get_officers client (events st @ [Call_get_company_profile c]) c")
      case (Inl x)
      with p na assms show ?thesis by (auto simp: expand_company_def Let_def expandable_def)
    next
      case (Inr all_offs)
      let ?offs = "if ao then filter (\<lambda>officer. \<not> truthy (o_resigned_on officer)) all_offs else all_offs"
      let ?st2 = "log_event (Call_get_officers c) (log_event (Call_get_company_profile c) st)"
      let ?st3 = "store_company c p d ?offs ?st2"
      have st': "st' = fold (process_officer client ao md c p d) ?offs ?st3"
        using assms p na Inr by (auto simp: expand_company_def Let_def)
      have ex: "expandable client ao (events st) c"
        using p na Inr by (auto simp: expandable_def)
      obtain node where n: "companies (network ?st3) = AList.update c node (companies (network st))"
        "c_depth node = d"
        using store_company_companies[of c p d ?offs ?st2] by auto
      obtain evs where evs: "events st' = events ?st3 @ evs" "\<forall>ev \<in> set evs. officer_event ev"
        using fold_process_officer_events[of client ao md c p d ?offs ?st3] st' by auto
      have "scanned_companies (self st') = finsert c (scanned_companies (self st))"
        by (simp add: st')
      moreover have "companies (network st') = AList.update c node (companies (network st))"
        using n by (simp add: st')
      moreover have "events st' = events st @ [Call_get_company_profile c, Call_get_officers c,
                                               Store_company c] @ evs"
        using evs(1) by simp
      ultimately show ?thesis using ex n(2) evs(2) by blast
    qed
  qed
qed

text \<open>What one turn of the loop does.\<close>

lemma scan_step_cases:
  assumes "scan_step client ao md st = Inr st'"
  shows "\<exists>c d rest. companies_to_scan st = (c, d) # rest \<and>
     ((self st' = self st \<and> network st' = network st \<and> companies_to_scan st' = rest
        \<and> ((c |\<in>| scanned_companies (self st) \<or> md < d) \<and> events st' = events st
           \<or> (c |\<notin>| scanned_companies (self st) \<and> d \<le> md \<and> \<not> expandable client ao (events st) c
              \<and> (events st' = events st @ [Call_get_company_profile c]
                 \<or> events st' = events st @ [Call_get_company_profile c, Call_get_officers c]))))
      \<or> (c |\<notin>| scanned_companies (self st) \<and> d \<le> md \<and> expandable client ao (events st) c
           \<and> scanned_companies (self st') = finsert c (scanned_companies (self st))
           \<and> (\<exists>node. companies (network st') = AList.update c node (companies (network st))
                     \<and> c_depth node = d)
           \<and> (\<exists>evs. events st' = events st @ [Call_get_company_profile c, Call_get_officers c,
                                               Store_company c] @ evs
                     \<and> (\<forall>ev \<in> set evs. officer_event ev))))"
proof (cases "companies_to_scan st")
  case Nil
  with assms show ?thesis by (simp add: scan_step_def)
next
  case (Cons x rest)
  obtain c d where x: "x = (c, d)" by (cases x)
  let ?st0 = "st\<lparr>companies_to_scan := rest\<rparr>"
  show ?thesis
  proof (cases "c |\<in>| scanned_companies (self st) \<or> d > md")
    case True
    with assms Cons x have "st' = ?st0" by (auto simp: scan_step_def Let_def)
    with Cons x True show ?thesis by auto
  next
    case False
    then have g: "c |\<notin>| scanned_companies (self st)" "d \<le> md" by auto
    from assms Cons x False have
      "expand_company client ao md c d ?st0 = Inr st' \<or> (\<exists>e. expand_company client ao md c d ?st0 = Inl (e, st'))"
      by (auto simp: scan_step_def Let_def split: sum.splits)
    then obtain e where "expand_company client ao md c d ?st0 = Inr st' \<or> expand_company client ao md c d ?st0 = Inl (e, st')"
      by blast
    from expand_company_cases[OF this] g Cons x show ?thesis
      by (simp add: Cons x) blast
  qed
qed


lemma officer_events_count:
  "\<forall>ev \<in> set evs. officer_event ev \<Longrightarrow> \<not> officer_event e \<Longrightarrow> count_list evs e = 0"
  by (auto simp: count_list_0_iff)

lemma officer_event_simps [simp]:
  "\<not> officer_event (Call_get_company_profile c)"
  "\<not> officer_event (Call_get_officers c)"
  "\<not> officer_event (Store_company c)"
  by (simp_all add: officer_event_def)

lemma scan_turns_returns: "\<exists>st'. scan_turns n client ao md mc st = Inr st'"
proof (induction n arbitrary: st)
  case 0
  then show ?case by simp
next
  case (Suc n)
  show ?case
  proof (cases "loop_condition mc st")
    case False
    then show ?thesis by simp
  next
    case True
    then have "companies_to_scan st \<noteq> []" by (simp add: loop_condition_def)
    then obtain st1 where "scan_step client ao md st = Inr st1"
      using scan_step_returns by blast
    with True Suc[of st1] show ?thesis by simp
  qed
qed

lemma scan_turns_invariant:
  assumes "scan_turns n client ao md mc st = Inr st'"
    and "P st"
    and "\<And>s s'. P s \<Longrightarrow> loop_condition mc s \<Longrightarrow> scan_step client ao md s = Inr s' \<Longrightarrow> P s'"
  shows "P st'"
  using assms(1,2)
proof (induction n arbitrary: st)
  case 0
  then show ?case by simp
next
  case (Suc n)
  show ?case
  proof (cases "loop_condition mc st")
    case False
    with Suc.prems show ?thesis by simp
  next
    case True
    then have "companies_to_scan st \<noteq> []" by (simp add: loop_condition_def)
    then obtain st1 where s: "scan_step client ao md st = Inr st1"
      using scan_step_returns by blast
    with True Suc.prems(1) have t: "scan_turns n client ao md mc st1 = Inr st'" by simp
    from assms(3)[OF Suc.prems(2) True s] have "P st1" .
    from Suc.IH[OF t this] show ?thesis .
  qed
qed

text \<open>The loop is its turns: it stops after finitely many of them.\<close>

lemma scan_loop_turns:
  "\<exists>n. \<forall>m \<ge> n. scan_turns m client ao md mc st = scan_loop client ao md mc st"
proof (induction client ao md mc st rule: scan_loop.induct)
  case (1 client ao md mc st)
  show ?case
  proof (cases "loop_condition mc st")
    case False
    have "scan_turns m client ao md mc st = scan_loop client ao md mc st" for m
      using False by (cases m) (simp_all add: scan_loop.simps[of client ao md mc st])
    then show ?thesis by blast
  next
    case True
    then have "companies_to_scan st \<noteq> []" by (simp add: loop_condition_def)
    then obtain st1 where s: "scan_step client ao md st = Inr st1"
      using scan_step_returns by blast
    from 1[OF True s] obtain n where
      n: "\<forall>m \<ge> n. scan_turns m client ao md mc st1 = scan_loop client ao md mc st1" by blast
    have "scan_turns m client ao md mc st = scan_loop client ao md mc st" if "m \<ge> Suc n" for m
    proof -
      from that obtain k where k: "m = Suc k" "k \<ge> n" by (cases m) auto
      with n True s show ?thesis by (simp add: scan_loop.simps[of client ao md mc st])
    qed
    then show ?thesis by blast
  qed
qed

subsection \<open>The cap on the companies\<close>

lemma within_cap_length:
  assumes "within_cap mc st"
  shows "int (length (companies (network st))) \<le> max 0 mc"
proof -
  from assms have "card (set (map fst (companies (network st)))) = length (map fst (companies (network st)))"
    by (intro distinct_card) (simp add: within_cap_def)
  moreover from assms have "set (map fst (companies (network st))) = fset (scanned_companies (self st))"
    by (simp add: within_cap_def)
  ultimately have "length (companies (network st)) = fcard (scanned_companies (self st))"
    by (simp add: fcard.rep_eq)
  with assms show ?thesis by (simp add: within_cap_def)
qed

lemma scan_step_within_cap:
  assumes "within_cap mc s" and "loop_condition mc s" and "scan_step client ao md s = Inr s'"
  shows "within_cap mc s'"
proof -
  from scan_step_cases[OF assms(3)] obtain c d rest where
    "(self s' = self s \<and> network s' = network s)
     \<or> (c |\<notin>| scanned_companies (self s)
        \<and> scanned_companies (self s') = finsert c (scanned_companies (self s))
        \<and> (\<exists>node. companies (network s') = AList.update c node (companies (network s))))"
    by blast
  then show ?thesis
  proof
    assume "self s' = self s \<and> network s' = network s"
    with assms(1) show ?thesis by (simp add: within_cap_def)
  next
    assume a: "c |\<notin>| scanned_companies (self s)
        \<and> scanned_companies (self s') = finsert c (scanned_companies (self s))
        \<and> (\<exists>node. companies (network s') = AList.update c node (companies (network s)))"
    then obtain node where n: "companies (network s') = AList.update c node (companies (network s))"
      by blast
    have "distinct (map fst (companies (network s')))"
      using assms(1) by (simp add: n within_cap_def AList.distinct_update)
    moreover have "fst ` set (companies (network s')) = fset (scanned_companies (self s'))"
      using assms(1) a by (simp add: n within_cap_def AList.dom_update)
    moreover have "int (fcard (scanned_companies (self s'))) \<le> max 0 mc"
      using assms(2) a by (simp add: loop_condition_def fcard_finsert_if)
    ultimately show ?thesis by (simp add: within_cap_def)
  qed
qed

lemma initial_within_cap: "within_cap mc (initial_state s seeds md)"
  by (simp add: within_cap_def initial_state_def fcard_fempty)

lemma two_seeds_run:
  assumes "expandable client ao [] a" and "0 \<le> md"
  shows "\<exists>st evs. scan_run client s [a, b] md 1 ao = Inr st
           \<and> map fst (companies (network st)) = [a]
           \<and> events st = [Call_get_company_profile a, Call_get_officers a, Store_company a] @ evs
           \<and> (\<forall>ev \<in> set evs. officer_event ev)"
proof -
  let ?st0 = "initial_state s [a, b] md"
  have l0: "loop_condition 1 ?st0"
    by (simp add: loop_condition_def initial_state_def fcard_fempty)
  have e0: "events ?st0 = []" by (simp add: initial_state_def)
  obtain st1 where s1: "scan_step client ao md ?st0 = Inr st1"
    using scan_step_returns[where st = ?st0 and client = client and ao = ao and md = md]
    by (auto simp: initial_state_def)
  from scan_step_cases[OF s1] assms e0 obtain node evs where
    sc: "scanned_companies (self st1) = {|a|}"
    and co: "companies (network st1) = [(a, node)]"
    and ev: "events st1 = [Call_get_company_profile a, Call_get_officers a, Store_company a] @ evs"
            "\<forall>ev \<in> set evs. officer_event ev"
    by (auto simp: initial_state_def)
  have l1: "\<not> loop_condition 1 st1"
    by (simp add: loop_condition_def sc fcard_finsert_if fcard_fempty)
  have "scan_loop client ao md 1 ?st0 = Inr st1"
    using l0 l1 s1 by (simp add: scan_loop.simps)
  then have "scan_run client s [a, b] md 1 ao = Inr (update_statistics st1)"
    by (simp add: scan_run_def)
  moreover have "map fst (companies (network (update_statistics st1))) = [a]"
    by (simp add: update_statistics_def Let_def co)
  moreover have "events (update_statistics st1) = events st1"
    by (simp add: update_statistics_def Let_def)
  ultimately show ?thesis using ev by auto
qed

text \<open>
  C4. After any number of turns of the loop of \<^verbatim>\<open>scan_network\<close>, and in the snapshot it
  returns, the companies are at most \<^verbatim>\<open>max_companies\<close> (and none under a negative
  \<^verbatim>\<open>max_companies\<close>, a value the visited count cannot reach). With \<^verbatim>\<open>max_companies = 1\<close> and
  two eligible seeds, that is two different companies that can be expanded whenever
  they are asked for, at a depth \<^verbatim>\<open>max_depth\<close> allows, the snapshot holds the first seed
  alone, and no profile or officers of the second seed were requested and no node was
  stored for it.
\<close>

theorem C4_companies_within_cap:
  "(scan_turns n client active_only max_depth max_companies
        (initial_state old_self seed_companies max_depth) = Inr st
      \<longrightarrow> int (length (companies (network st))) \<le> max 0 max_companies)
   \<and> (scan_network client old_self seed_companies max_depth max_companies active_only = Inr (net, self')
      \<longrightarrow> int (length (companies net)) \<le> max 0 max_companies)
   \<and> ((\<forall>history. expandable client active_only history a)
        \<and> (\<forall>history. expandable client active_only history b) \<and> a \<noteq> b \<and> 0 \<le> max_depth
      \<longrightarrow> (\<exists>st2. scan_run client old_self [a, b] max_depth 1 active_only = Inr st2
             \<and> map fst (companies (network st2)) = [a]
             \<and> Call_get_company_profile b \<notin> set (events st2)
             \<and> Call_get_officers b \<notin> set (events st2)
             \<and> Store_company b \<notin> set (events st2)))"
proof (intro conjI impI)
  assume "scan_turns n client active_only max_depth max_companies
        (initial_state old_self seed_companies max_depth) = Inr st"
  from scan_turns_invariant[OF this, of "within_cap max_companies"]
  have "within_cap max_companies st"
    using initial_within_cap scan_step_within_cap by blast
  then show "int (length (companies (network st))) \<le> max 0 max_companies"
    by (rule within_cap_length)
next
  assume "scan_network client old_self seed_companies max_depth max_companies active_only = Inr (net, self')"
  then obtain st0 where l: "scan_loop client active_only max_depth max_companies
        (initial_state old_self seed_companies max_depth) = Inr st0"
    and net: "net = network (update_statistics st0)"
    by (auto simp: scan_network_def scan_run_def split: sum.splits)
  have "within_cap max_companies st0"
    using scan_loop_invariant[OF l, of "within_cap max_companies"]
      initial_within_cap scan_step_within_cap by blast
  then have "int (length (companies (network st0))) \<le> max 0 max_companies"
    by (rule within_cap_length)
  then show "int (length (companies net)) \<le> max 0 max_companies"
    by (simp add: net update_statistics_def Let_def)
next
  assume a: "(\<forall>history. expandable client active_only history a)
        \<and> (\<forall>history. expandable client active_only history b) \<and> a \<noteq> b \<and> 0 \<le> max_depth"
  then have ea: "expandable client active_only [] a" "0 \<le> max_depth" by simp_all
  from two_seeds_run[OF ea, of old_self b]
  obtain st2 evs where "scan_run client old_self [a, b] max_depth 1 active_only = Inr st2
    \<and> map fst (companies (network st2)) = [a]
    \<and> events st2 = [Call_get_company_profile a, Call_get_officers a, Store_company a] @ evs
    \<and> (\<forall>ev \<in> set evs. officer_event ev)"
    by (elim exE)
  then have r: "scan_run client old_self [a, b] max_depth 1 active_only = Inr st2"
    "map fst (companies (network st2)) = [a]"
    "events st2 = [Call_get_company_profile a, Call_get_officers a, Store_company a] @ evs"
    "\<forall>ev \<in> set evs. officer_event ev"
    by blast+
  from r(4) have "Call_get_company_profile b \<notin> set evs" "Call_get_officers b \<notin> set evs"
    "Store_company b \<notin> set evs"
    by (auto simp: officer_event_def)
  with r a show "\<exists>st2. scan_run client old_self [a, b] max_depth 1 active_only = Inr st2
             \<and> map fst (companies (network st2)) = [a]
             \<and> Call_get_company_profile b \<notin> set (events st2)
             \<and> Call_get_officers b \<notin> set (events st2)
             \<and> Store_company b \<notin> set (events st2)"
    by auto
qed

text \<open>The two companies of the example registry as seeds, with a cap of 1.\<close>

theorem C4_companies_within_cap_witness:
  "(\<exists>st. scan_turns 1 example_client True 1 1 (initial_state fresh_scanner [''A'', ''B''] 1) = Inr st
        \<and> int (length (companies (network st))) \<le> 1)
   \<and> (\<exists>net self'. scan_network example_client fresh_scanner [''A'', ''B''] 1 1 True = Inr (net, self')
        \<and> int (length (companies net)) \<le> 1)
   \<and> (\<forall>history. expandable example_client True history ''A'')
   \<and> (\<forall>history. expandable example_client True history ''B'')
   \<and> (\<exists>st2. scan_run example_client fresh_scanner [''A'', ''B''] 1 1 True = Inr st2
             \<and> map fst (companies (network st2)) = [''A'']
             \<and> Call_get_company_profile ''B'' \<notin> set (events st2)
             \<and> Call_get_officers ''B'' \<notin> set (events st2)
             \<and> Store_company ''B'' \<notin> set (events st2))"
proof -
  obtain st where t: "scan_turns 1 example_client True 1 1 (initial_state fresh_scanner [''A'', ''B''] 1) = Inr st"
    using scan_turns_returns by blast
  have e: "\<forall>history. expandable example_client True history ''A''"
    "\<forall>history. expandable example_client True history ''B''"
    by (simp_all add: expandable_def example_client_def active_profile_def)
  obtain st2 where r: "scan_run example_client fresh_scanner [''A'', ''B''] 1 1 True = Inr st2"
    using scan_loop_returns[of example_client True 1 1 "initial_state fresh_scanner [''A'', ''B''] 1"]
    by (auto simp: scan_run_def)
  then have n: "scan_network example_client fresh_scanner [''A'', ''B''] 1 1 True = Inr (network st2, self st2)"
    by (simp add: scan_network_def)
  note inst = C4_companies_within_cap[of 1 example_client True 1 1 fresh_scanner "[''A'', ''B'']" st
      "network st2" "self st2" "''A''" "''B''"]
  from inst t n e show ?thesis by auto
qed

subsection \<open>The node of a company is stored once, and last\<close>


lemma about_simps [simp]:
  "about c (Call_get_company_profile c') \<longleftrightarrow> c' = c"
  "about c (Call_get_officers c') \<longleftrightarrow> c' = c"
  "about c (Store_company c') \<longleftrightarrow> c' = c"
  by (auto simp: about_def)








subsection \<open>The clusters\<close>

lemma grown_refl: "grown graph roots s s"
  by (simp add: grown_def)

lemma grown_mono: "grown graph roots s s' \<Longrightarrow> roots \<subseteq> roots' \<Longrightarrow> grown graph roots' s s'"
  unfolding grown_def by blast

lemma grown_trans:
  assumes "grown graph r1 s s1" and "grown graph r2 s1 s2"
  shows "grown graph (r1 \<union> r2) s s2"
proof -
  from assms(1) obtain n1 where 1: "snd s1 = snd s @ n1" "fset (fst s1) = fset (fst s) \<union> set n1"
    "distinct n1" "set n1 \<inter> fset (fst s) = {}"
    "\<forall>y \<in> set n1. \<exists>r \<in> r1. (r, y) \<in> (edges graph)\<^sup>*"
    unfolding grown_def by blast
  from assms(2) obtain n2 where 2: "snd s2 = snd s1 @ n2" "fset (fst s2) = fset (fst s1) \<union> set n2"
    "distinct n2" "set n2 \<inter> fset (fst s1) = {}"
    "\<forall>y \<in> set n2. \<exists>r \<in> r2. (r, y) \<in> (edges graph)\<^sup>*"
    unfolding grown_def by blast
  have "snd s2 = snd s @ (n1 @ n2)" using 1(1) 2(1) by simp
  moreover have "fset (fst s2) = fset (fst s) \<union> set (n1 @ n2)" using 1(2) 2(2) by auto
  moreover have "distinct (n1 @ n2)" using 1(2,3) 2(3,4) by auto
  moreover have "set (n1 @ n2) \<inter> fset (fst s) = {}" using 1(2,4) 2(4) by auto
  moreover have "\<forall>y \<in> set (n1 @ n2). \<exists>r \<in> r1 \<union> r2. (r, y) \<in> (edges graph)\<^sup>*"
    using 1(5) 2(5) by auto
  ultimately show ?thesis unfolding grown_def by blast
qed

lemma grown_dfs:
  assumes "node |\<notin>| visited"
    and "grown graph roots (finsert node visited, cluster @ [node]) s'"
    and "roots \<subseteq> set (graph node)"
  shows "grown graph {node} (visited, cluster) s'"
proof -
  from assms(2) obtain new where n: "snd s' = (cluster @ [node]) @ new"
    "fset (fst s') = insert node (fset visited) \<union> set new"
    "distinct new" "set new \<inter> insert node (fset visited) = {}"
    "\<forall>y \<in> set new. \<exists>r \<in> roots. (r, y) \<in> (edges graph)\<^sup>*"
    unfolding grown_def by auto
  have "snd s' = cluster @ (node # new)" using n(1) by simp
  moreover have "fset (fst s') = fset visited \<union> set (node # new)" using n(2) by auto
  moreover have "distinct (node # new)" using n(3,4) by auto
  moreover have "set (node # new) \<inter> fset visited = {}" using n(4) assms(1) by auto
  moreover have "\<forall>y \<in> set (node # new). (node, y) \<in> (edges graph)\<^sup>*"
  proof
    fix y assume "y \<in> set (node # new)"
    then consider "y = node" | "y \<in> set new" by auto
    then show "(node, y) \<in> (edges graph)\<^sup>*"
    proof cases
      case 1
      then show ?thesis by simp
    next
      case 2
      with n(5) obtain r where r: "r \<in> roots" "(r, y) \<in> (edges graph)\<^sup>*" by blast
      with assms(3) have "(node, r) \<in> edges graph" by (auto simp: edges_def)
      with r(2) show ?thesis by (meson converse_rtrancl_into_rtrancl)
    qed
  qed
  ultimately show ?thesis unfolding grown_def
    by (intro exI[of _ "node # new"]) simp
qed

lemma dfs_sound:
  "(\<forall>xs. set (so xs) \<subseteq> set xs) \<Longrightarrow> dfs limit so graph node s = Inr s' \<Longrightarrow> node |\<notin>| fst s
     \<Longrightarrow> grown graph {node} s s'"
  "(\<forall>xs. set (so xs) \<subseteq> set xs) \<Longrightarrow> dfs_neighbors limit so graph ns s = Inr s'
     \<Longrightarrow> grown graph (set ns) s s'"
proof (induction limit so graph node s and limit so graph ns s arbitrary: s' and s'
    rule: dfs_dfs_neighbors.induct)
  case (1 so graph node visited cluster)
  then show ?case by simp
next
  case (2 limit so graph node visited cluster)
  from "2.prems"(2) have d: "dfs_neighbors limit so graph (so (graph node))
      (finsert node visited, cluster @ [node]) = Inr s'" by simp
  from "2.IH"[OF "2.prems"(1) d]
  have "grown graph (set (so (graph node))) (finsert node visited, cluster @ [node]) s'" .
  moreover have "set (so (graph node)) \<subseteq> set (graph node)" using "2.prems"(1) by blast
  moreover have "node |\<notin>| visited" using "2.prems"(3) by simp
  ultimately show ?case using grown_dfs by blast
next
  case (3 limit so graph visited cluster)
  then show ?case by (simp add: grown_refl)
next
  case (4 limit so graph neighbor rest visited cluster)
  show ?case
  proof (cases "neighbor |\<notin>| visited")
    case True
    with "4.prems"(2) obtain v1 c1 where
      d1: "dfs limit so graph neighbor (visited, cluster) = Inr (v1, c1)"
      and d2: "dfs_neighbors limit so graph rest (v1, c1) = Inr s'"
      by (auto split: sum.splits)
    from "4.IH"(1)[OF True "4.prems"(1) d1] True
    have g1: "grown graph {neighbor} (visited, cluster) (v1, c1)" by simp
    from "4.IH"(2)[OF True d1 refl "4.prems"(1) d2]
    have g2: "grown graph (set rest) (v1, c1) s'" .
    from grown_trans[OF g1 g2] show ?thesis by simp
  next
    case False
    with "4.prems"(2) have d: "dfs_neighbors limit so graph rest (visited, cluster) = Inr s'"
      by simp
    from "4.IH"(3)[OF False "4.prems"(1) d]
    have "grown graph (set rest) (visited, cluster) s'" .
    then show ?thesis by (rule grown_mono) auto
  qed
qed

lemma dfs_one_component:
  assumes "\<forall>xs. set (so xs) \<subseteq> set xs"
    and "dfs limit so graph company (visited, []) = Inr (visited', cluster)"
    and "company |\<notin>| visited" and "1 < length cluster"
  shows "one_component graph cluster"
proof -
  from dfs_sound(1)[OF assms(1,2)] assms(3)
  have "grown graph {company} (visited, []) (visited', cluster)" by simp
  then have "distinct cluster" "\<forall>y \<in> set cluster. (company, y) \<in> (edges graph)\<^sup>*"
    by (auto simp: grown_def)
  with assms(4) show ?thesis unfolding one_component_def by blast
qed

lemma collect_clusters_sound:
  "(\<forall>xs. set (so xs) \<subseteq> set xs) \<Longrightarrow> collect_clusters limit so graph cs s = Inr s'
     \<Longrightarrow> \<forall>c \<in> set (snd s). one_component graph c
     \<Longrightarrow> \<forall>c \<in> set (snd s'). one_component graph c"
proof (induction limit so graph cs s arbitrary: s' rule: collect_clusters.induct)
  case (1 limit so graph visited clusters)
  then show ?case by simp
next
  case (2 limit so graph company rest visited clusters)
  show ?case
  proof (cases "company |\<notin>| visited")
    case True
    with "2.prems"(2) obtain v1 c1 where
      d1: "dfs limit so graph company (visited, []) = Inr (v1, c1)"
      and d2: "collect_clusters limit so graph rest
                 (v1, if 1 < length c1 then clusters @ [c1] else clusters) = Inr s'"
      by (auto split: sum.splits)
    have "\<forall>c \<in> set (if 1 < length c1 then clusters @ [c1] else clusters). one_component graph c"
      using "2.prems"(3) dfs_one_component[OF "2.prems"(1) d1 True] by auto
    with "2.IH"(1)[OF True d1 refl "2.prems"(1) d2] show ?thesis by simp
  next
    case False
    with "2.prems"(2) have "collect_clusters limit so graph rest (visited, clusters) = Inr s'"
      by simp
    from "2.IH"(2)[OF False "2.prems"(1) this] "2.prems"(3) show ?thesis by simp
  qed
qed

text \<open>
  A cluster starts with the company the loop found it from, and the clusters are
  appended in the order of the loop.
\<close>

lemma dfs_first:
  assumes "\<forall>xs. set (so xs) \<subseteq> set xs"
    and "dfs limit so graph node (visited, cluster) = Inr (visited', cluster')"
  shows "\<exists>more. cluster' = cluster @ node # more"
proof (cases limit)
  case 0
  with assms(2) show ?thesis by simp
next
  case (Suc l)
  with assms(2) have "dfs_neighbors l so graph (so (graph node))
      (finsert node visited, cluster @ [node]) = Inr (visited', cluster')"
    by simp
  from dfs_sound(2)[OF assms(1) this] show ?thesis by (auto simp: grown_def)
qed

lemma collect_clusters_order:
  "(\<forall>xs. set (so xs) \<subseteq> set xs) \<Longrightarrow> collect_clusters limit so graph cs s = Inr s'
     \<Longrightarrow> \<exists>new. snd s' = snd s @ new \<and> subseq (map hd new) cs"
proof (induction limit so graph cs s arbitrary: s' rule: collect_clusters.induct)
  case (1 limit so graph visited clusters)
  then show ?case by simp
next
  case (2 limit so graph company rest visited clusters)
  show ?case
  proof (cases "company |\<notin>| visited")
    case True
    with "2.prems"(2) obtain v1 c1 where
      d1: "dfs limit so graph company (visited, []) = Inr (v1, c1)"
      and d2: "collect_clusters limit so graph rest
                 (v1, if 1 < length c1 then clusters @ [c1] else clusters) = Inr s'"
      by (auto split: sum.splits)
    from dfs_first[OF "2.prems"(1) d1] have h: "hd c1 = company" by auto
    from "2.IH"(1)[OF True d1 refl "2.prems"(1) d2] obtain new where
      n: "snd s' = (if 1 < length c1 then clusters @ [c1] else clusters) @ new"
      "subseq (map hd new) rest"
      by auto
    show ?thesis
    proof (cases "1 < length c1")
      case True
      with n(1) have "snd s' = clusters @ (c1 # new)" by simp
      moreover have "subseq (map hd (c1 # new)) (company # rest)"
        using n(2) h by simp
      ultimately show ?thesis by (intro exI[of _ "c1 # new"]) simp
    next
      case False
      with n(1) have "snd s' = clusters @ new" by simp
      moreover have "subseq (map hd new) (company # rest)"
        using n(2) by (rule list_emb_Cons)
      ultimately show ?thesis by (intro exI[of _ new]) simp
    qed
  next
    case False
    with "2.prems"(2) have "collect_clusters limit so graph rest (visited, clusters) = Inr s'"
      by simp
    from "2.IH"(2)[OF False "2.prems"(1) this] obtain new where
      "snd s' = clusters @ new" "subseq (map hd new) rest"
      by auto
    then show ?thesis using list_emb_Cons by (intro exI[of _ new]) auto
  qed
qed

subsection \<open>The graph\<close>

lemma add_neighbor_set:
  "set (add_neighbor k r g x) = set (g x) \<union> (if x = k then {r} else {})"
  by (auto simp: add_neighbor_def)

lemma fold_add_neighbor_set:
  "set (fold (\<lambda>related g. if related \<noteq> k then add_neighbor k related g else g) rs g x)
     = set (g x) \<union> (if x = k then {r \<in> set rs. r \<noteq> k} else {})"
  by (induction rs arbitrary: g) (auto simp: add_neighbor_set)

lemma fold_connections_set:
  "set (fold (\<lambda>connection graph.
             fold (\<lambda>related g. if related \<noteq> n_company_number connection
                                then add_neighbor (n_company_number connection) related g
                                else g)
                  (related_companies conns (n_director_id connection)) graph) cs g x)
     = set (g x) \<union> {r. r \<noteq> x \<and> (\<exists>c \<in> set cs. n_company_number c = x
                        \<and> r \<in> set (related_companies conns (n_director_id c)))}"
proof (induction cs arbitrary: g)
  case Nil
  then show ?case by simp
next
  case (Cons c cs)
  show ?case by (simp add: Cons.IH fold_add_neighbor_set) blast
qed

lemma build_graph_set:
  "set (build_graph conns x) = {r. r \<noteq> x \<and> (x, r) \<in> shared_director conns}"
  unfolding build_graph_def fold_connections_set
  by (auto simp: related_companies_def shared_director_def) (metis (no_types))

lemma edges_build_graph:
  "edges (build_graph conns) = {(x, y). x \<noteq> y \<and> (x, y) \<in> shared_director conns}"
  by (auto simp: edges_def build_graph_set)

lemma sym_shared_director: "sym (shared_director conns)"
  unfolding sym_def shared_director_def by force

lemma sym_edges_build_graph: "sym (edges (build_graph conns))"
  using sym_shared_director[of conns] unfolding edges_build_graph sym_def by auto

lemma one_component_shared_director:
  assumes "one_component (build_graph conns) cluster"
    and "x \<in> set cluster" and "y \<in> set cluster"
  shows "(x, y) \<in> (shared_director conns)\<^sup>*"
proof -
  let ?E = "edges (build_graph conns)"
  from assms obtain root where "(root, x) \<in> ?E\<^sup>*" "(root, y) \<in> ?E\<^sup>*"
    unfolding one_component_def by blast
  moreover have "sym (?E\<^sup>*)" using sym_edges_build_graph by (rule sym_rtrancl)
  ultimately have "(x, root) \<in> ?E\<^sup>*" "(root, y) \<in> ?E\<^sup>*" by (auto dest: symD)
  then have "(x, y) \<in> ?E\<^sup>*" by simp
  moreover have "?E \<subseteq> shared_director conns" by (auto simp: edges_build_graph)
  ultimately show ?thesis using rtrancl_mono by blast
qed

subsection \<open>A recursion limit that is enough\<close>

lemma dfs_returns:
  "(\<forall>xs. set (so xs) \<subseteq> set xs) \<Longrightarrow> finite U \<Longrightarrow> (\<forall>x. set (graph x) \<subseteq> U) \<Longrightarrow> node \<in> U
     \<Longrightarrow> node |\<notin>| fst s \<Longrightarrow> card (U - fset (fst s)) \<le> limit
     \<Longrightarrow> \<exists>s'. dfs limit so graph node s = Inr s' \<and> fset (fst s) \<subseteq> fset (fst s')"
  "(\<forall>xs. set (so xs) \<subseteq> set xs) \<Longrightarrow> finite U \<Longrightarrow> (\<forall>x. set (graph x) \<subseteq> U) \<Longrightarrow> set ns \<subseteq> U
     \<Longrightarrow> card (U - fset (fst s)) \<le> limit
     \<Longrightarrow> \<exists>s'. dfs_neighbors limit so graph ns s = Inr s' \<and> fset (fst s) \<subseteq> fset (fst s')"
proof (induction limit so graph node s and limit so graph ns s
    rule: dfs_dfs_neighbors.induct)
  case (1 so graph node visited cluster)
  from "1.prems"(2,4,5) have "card (U - fset visited) > 0"
    by (auto simp: card_gt_0_iff)
  with "1.prems"(6) show ?case by simp
next
  case (2 limit so graph node visited cluster)
  have "node \<in> U - fset visited" using "2.prems"(4,5) by simp
  then have "card (U - fset visited - {node}) < card (U - fset visited)"
    using "2.prems"(2) by (intro card_Diff1_less) auto
  moreover have "U - fset (finsert node visited) = U - fset visited - {node}" by auto
  ultimately have c: "card (U - fset (fst (finsert node visited, cluster @ [node]))) \<le> limit"
    using "2.prems"(6) by simp
  have n: "set (so (graph node)) \<subseteq> U" using "2.prems"(1,3) by blast
  from "2.IH"[OF "2.prems"(1,2,3) n c] show ?case by auto
next
  case (3 limit so graph visited cluster)
  then show ?case by simp
next
  case (4 limit so graph neighbor rest visited cluster)
  have r: "set rest \<subseteq> U" and nb: "neighbor \<in> U" using "4.prems"(4) by auto
  show ?case
  proof (cases "neighbor |\<notin>| visited")
    case True
    from "4.IH"(1)[OF True "4.prems"(1,2,3) nb _ "4.prems"(5)] True
    obtain v1 c1 where d1: "dfs limit so graph neighbor (visited, cluster) = Inr (v1, c1)"
      and s1: "fset visited \<subseteq> fset v1"
      by auto
    have "card (U - fset v1) \<le> card (U - fset visited)"
      using s1 "4.prems"(2) by (intro card_mono) auto
    with "4.prems"(5) have c: "card (U - fset (fst (v1, c1))) \<le> limit" by simp
    from "4.IH"(2)[OF True d1 refl "4.prems"(1,2,3) r c] True d1 s1 show ?thesis by auto
  next
    case False
    from "4.IH"(3)[OF False "4.prems"(1,2,3) r "4.prems"(5)] False show ?thesis by simp
  qed
qed

lemma collect_clusters_returns:
  "(\<forall>xs. set (so xs) \<subseteq> set xs) \<Longrightarrow> finite U \<Longrightarrow> (\<forall>x. set (graph x) \<subseteq> U) \<Longrightarrow> set cs \<subseteq> U
     \<Longrightarrow> card U \<le> limit \<Longrightarrow> \<exists>s'. collect_clusters limit so graph cs s = Inr s'"
proof (induction limit so graph cs s rule: collect_clusters.induct)
  case (1 limit so graph visited clusters)
  then show ?case by simp
next
  case (2 limit so graph company rest visited clusters)
  have r: "set rest \<subseteq> U" and co: "company \<in> U" using "2.prems"(4) by auto
  show ?case
  proof (cases "company |\<notin>| visited")
    case True
    have "card (U - fset visited) \<le> card U" using "2.prems"(2) by (intro card_mono) auto
    with "2.prems"(5) have "card (U - fset (fst (visited, []::string list))) \<le> limit" by simp
    from dfs_returns(1)[OF "2.prems"(1,2,3) co _ this] True
    obtain v1 c1 where d1: "dfs limit so graph company (visited, []) = Inr (v1, c1)" by auto
    from "2.IH"(1)[OF True d1 refl "2.prems"(1,2,3) r "2.prems"(5)] True d1 show ?thesis by simp
  next
    case False
    from "2.IH"(2)[OF False "2.prems"(1,2,3) r "2.prems"(5)] False show ?thesis by simp
  qed
qed

lemma find_company_clusters_returns:
  assumes "\<forall>xs. set (set_order xs) \<subseteq> set xs"
    and "length (companies net) + length (connections net) \<le> limit"
  shows "\<exists>clusters. find_company_clusters limit set_order net = Inr clusters"
proof -
  let ?U = "fst ` set (companies net) \<union> n_company_number ` set (connections net)"
  have "card ?U \<le> card (fst ` set (companies net)) + card (n_company_number ` set (connections net))"
    by (rule card_Un_le)
  also have "\<dots> \<le> card (set (companies net)) + card (set (connections net))"
    by (intro add_mono card_image_le) simp_all
  also have "\<dots> \<le> length (companies net) + length (connections net)"
    by (intro add_mono card_length)
  finally have c: "card ?U \<le> limit" using assms(2) by simp
  have g: "\<forall>x. set (build_graph (connections net) x) \<subseteq> ?U"
    by (auto simp: build_graph_set shared_director_def)
  have "\<exists>s'. collect_clusters limit set_order (build_graph (connections net))
           (map fst (companies net)) ({||}, []) = Inr s'"
    by (rule collect_clusters_returns[OF assms(1) _ g _ c]) auto
  then show ?thesis by (auto simp: find_company_clusters_def)
qed

text \<open>
  C8. Whatever order the sets are iterated in, every cluster \<^verbatim>\<open>find_company_clusters\<close>
  returns holds at least two companies, each once, and any two of them are linked by a
  chain of companies in which neighbours have a connection to the same director. The
  clusters come by decreasing length. Those of one length come in the order in which
  the loop over \<^verbatim>\<open>network['companies']\<close> found them: their first companies, from which
  the loop found them, stand in this order among the keys of \<^verbatim>\<open>network['companies']\<close>.
\<close>

theorem C8_clusters_of_shared_directors:
  assumes "find_company_clusters limit set_order net = Inr clusters"
    and "\<forall>xs. set (set_order xs) = set xs"
  shows "(\<forall>cluster \<in> set clusters.
            2 \<le> length cluster \<and> distinct cluster
            \<and> (\<forall>x \<in> set cluster. \<forall>y \<in> set cluster. (x, y) \<in> (shared_director (connections net))\<^sup>*))
       \<and> sorted_wrt (\<lambda>c1 c2. length c2 \<le> length c1) clusters
       \<and> (\<forall>k. subseq (map hd (filter (\<lambda>cluster. length cluster = k) clusters))
                 (map fst (companies net)))"
proof -
  let ?g = "build_graph (connections net)"
  let ?f = "\<lambda>cluster::string list. - int (length cluster)"
  from assms(1) obtain visited found where
    c: "collect_clusters limit set_order ?g (map fst (companies net)) ({||}, []) = Inr (visited, found)"
    and s: "clusters = sort_key ?f found"
    by (auto simp: find_company_clusters_def split: sum.splits)
  from assms(2) have so: "\<forall>xs. set (set_order xs) \<subseteq> set xs" by simp
  from collect_clusters_sound[OF so c] have oc: "\<forall>cl \<in> set clusters. one_component ?g cl"
    by (simp add: s)
  have 1: "\<forall>cluster \<in> set clusters.
            2 \<le> length cluster \<and> distinct cluster
            \<and> (\<forall>x \<in> set cluster. \<forall>y \<in> set cluster. (x, y) \<in> (shared_director (connections net))\<^sup>*)"
  proof
    fix cluster assume "cluster \<in> set clusters"
    with oc have o: "one_component ?g cluster" by blast
    then have "2 \<le> length cluster" "distinct cluster" by (auto simp: one_component_def)
    with one_component_shared_director[OF o]
    show "2 \<le> length cluster \<and> distinct cluster
            \<and> (\<forall>x \<in> set cluster. \<forall>y \<in> set cluster. (x, y) \<in> (shared_director (connections net))\<^sup>*)"
      by blast
  qed
  have "sorted (map ?f clusters)" unfolding s by (rule sorted_sort_key)
  then have 2: "sorted_wrt (\<lambda>c1 c2. length c2 \<le> length c1) clusters"
    by (simp add: sorted_map)
  from collect_clusters_order[OF so c] have o: "subseq (map hd found) (map fst (companies net))"
    by simp
  have 3: "subseq (map hd (filter (\<lambda>cluster. length cluster = k) clusters))
                 (map fst (companies net))" for k
  proof -
    have "filter (\<lambda>cluster. length cluster = k) clusters
             = filter (\<lambda>cluster. length cluster = k) found"
      using sort_key_stable[of ?f "- int k" found] by (simp add: s)
    moreover have "subseq (map hd (filter (\<lambda>cluster. length cluster = k) found)) (map hd found)"
      by (intro subseq_map) simp
    ultimately show ?thesis using o subseq_order.trans by fastforce
  qed
  from 1 2 3 show ?thesis by blast
qed

text \<open>
  Eight companies: A and B share a director, C has one of its own, D, E, F are chained
  by two directors, and G and H share a director. The chain is found second and comes
  first; the two pairs keep the order in which they were found.
\<close>

theorem C8_clusters_of_shared_directors_witness:
  "find_company_clusters 10 (\<lambda>xs. xs) example_network
     = Inr [[''D'', ''E'', ''F''], [''A'', ''B''], [''G'', ''H'']]
   \<and> (''D'', ''F'') \<in> (shared_director (connections example_network))\<^sup>*
   \<and> (''A'', ''B'') \<in> (shared_director (connections example_network))\<^sup>*
   \<and> subseq [''A'', ''G''] (map fst (companies example_network))"
proof -
  have r: "find_company_clusters 10 (\<lambda>xs. xs) example_network
             = Inr [[''D'', ''E'', ''F''], [''A'', ''B''], [''G'', ''H'']]"
    by code_simp
  have h: "\<forall>xs. set ((\<lambda>xs. xs) xs) = set (xs::string list)" by simp
  from C8_clusters_of_shared_directors[OF r h] have
    a: "\<forall>cluster \<in> set [[''D'', ''E'', ''F''], [''A'', ''B''], [''G'', ''H'']].
          2 \<le> length cluster \<and> distinct cluster
          \<and> (\<forall>x \<in> set cluster. \<forall>y \<in> set cluster.
                (x, y) \<in> (shared_director (connections example_network))\<^sup>*)"
    and b: "\<forall>k. subseq (map hd (filter (\<lambda>cluster. length cluster = k)
               [[''D'', ''E'', ''F''], [''A'', ''B''], [''G'', ''H'']]))
             (map fst (companies example_network))"
    by blast+
  from b[rule_format, of 2] have "subseq [''A'', ''G''] (map fst (companies example_network))"
    by simp
  with a r show ?thesis by simp
qed

end
